theory Spec2Isabelle
  imports Complex_Main "HOL-Library.AList"
begin

section \<open>Data model\<close>

text \<open>
  The graph of the telecom simulator (\<^verbatim>\<open>type Node\<close>, \<^verbatim>\<open>type Edge\<close>, \<^verbatim>\<open>type Graph\<close>).
  The optional fields (\<^verbatim>\<open>isArticulationPoint?\<close>, \<^verbatim>\<open>isBridge?\<close>, \<^verbatim>\<open>isRecovery?\<close>) are
  options, \<open>None\<close> standing for an absent field. Coordinates are JavaScript numbers,
  taken here as reals; no statement about arbitrary graphs below depends on their
  arithmetic.
  The field \<^verbatim>\<open>id\<close> is \<open>node_id\<close>, \<^verbatim>\<open>x\<close> and \<^verbatim>\<open>y\<close> are \<open>node_x\<close> and \<open>node_y\<close>, and
  \<^verbatim>\<open>type\<close> is \<open>kind\<close>.
\<close>

datatype node_kind = City | Barangay | Hub

record node =
  node_id :: string
  label :: string
  node_x :: real
  node_y :: real
  kind :: node_kind
  isArticulationPoint :: "bool option"

record edge =
  source :: string
  target :: string
  isBridge :: "bool option"
  isActive :: bool
  isRecovery :: "bool option"

record graph =
  nodes :: "node list"
  edges :: "edge list"

text \<open>
  A thrown JavaScript exception. The only exceptions the modelled code can raise are
  \<^verbatim>\<open>TypeError\<close>s (a property read or a method call on \<^verbatim>\<open>undefined\<close>, iteration over
  \<^verbatim>\<open>undefined\<close>); the code defines no error values of its own.
\<close>

datatype error = TypeError

text \<open>
  The values that the path reconstruction of \<^verbatim>\<open>runBFS\<close> can read from \<^verbatim>\<open>prev\<close> and put
  on the path: \<^verbatim>\<open>null\<close>, \<^verbatim>\<open>undefined\<close>, a string, or a member of \<^verbatim>\<open>Object.prototype\<close>
  found through the prototype chain (\<open>Member k\<close> is \<^verbatim>\<open>Object.prototype[k]\<close>). The state
  \<^verbatim>\<open>path\<close> is declared as \<^verbatim>\<open>string[]\<close>, which is not checked when the code runs.
\<close>

datatype jsval = Null | Undefined | Str string | Member string

text \<open>
  The lines pushed onto the result log. Each constructor stands for one template string
  of the source and carries the node ids that the source renders through
  \<^verbatim>\<open>getNodeLabel\<close>.
\<close>

datatype event =
    SelectBoth
  | StartingBFS string
  | Visiting string
  | FoundTarget string
  | Discovered string string
  | ShortestPath "jsval list"
  | NoPathExists string string
  | Exploring string string
  | FoundArticulation string
  | FoundBridge string string
  | BackEdge string string
  | RootArticulation string
  | StartingRecovery
  | AllConnected
  | FoundDisconnected "node list"
  | Reconnecting node node

datatype mode = Normal | Failure

text \<open>The React state of the component \<^verbatim>\<open>TelecomSimulator\<close>, one field per \<^verbatim>\<open>useState\<close>.\<close>

record sim_state =
  graph :: graph
  selectedNode :: "string option"
  targetNode :: "string option"
  algorithmResult :: "event list"
  path :: "jsval list"
  bridges :: "edge list"
  articulationPoints :: "node list"
  mode :: mode
  recoveryEdges :: "edge list"

section \<open>Toggling an edge\<close>

definition edge_matches :: "string \<Rightarrow> string \<Rightarrow> edge \<Rightarrow> bool" where
  "edge_matches sourceId targetId e \<longleftrightarrow>
     (source e = sourceId \<and> target e = targetId) \<or>
     (source e = targetId \<and> target e = sourceId)"

definition toggleEdge :: "sim_state \<Rightarrow> string \<Rightarrow> string \<Rightarrow> sim_state" where
  "toggleEdge st sourceId targetId =
     st\<lparr>graph := (graph st)\<lparr>edges :=
            map (\<lambda>e. if edge_matches sourceId targetId e
                      then e\<lparr>isActive := \<not> isActive e\<rparr> else e)
                (edges (graph st))\<rparr>,
        path := [],
        algorithmResult := []\<rparr>"

text \<open>Two parallel links between the same pair of nodes, both up.\<close>

definition link :: "string \<Rightarrow> string \<Rightarrow> bool \<Rightarrow> edge" where
  "link a b up = \<lparr>source = a, target = b, isBridge = None, isActive = up, isRecovery = None\<rparr>"

definition site :: "string \<Rightarrow> node_kind \<Rightarrow> real \<Rightarrow> real \<Rightarrow> node" where
  "site a k px py =
     \<lparr>node_id = a, label = a, node_x = px, node_y = py, kind = k, isArticulationPoint = None\<rparr>"

definition initial_state :: "graph \<Rightarrow> sim_state" where
  "initial_state g =
     \<lparr>graph = g, selectedNode = None, targetNode = None, algorithmResult = [], path = [],
      bridges = [], articulationPoints = [], mode = Normal, recoveryEdges = []\<rparr>"

definition parallel_graph :: graph where
  "parallel_graph =
     \<lparr>nodes = [site ''A'' Hub 0 0, site ''B'' City 10 0],
      edges = [link ''A'' ''B'' True, link ''A'' ''B'' True]\<rparr>"

section \<open>Properties of toggling\<close>

text \<open>
  C6, as stated, fails: \<^verbatim>\<open>toggleEdge\<close> maps over all edges, so with two parallel edges
  between A and B both are flipped, not only the first.
\<close>

theorem toggleEdge_parallel_counterexample:
  "map isActive (edges (graph (toggleEdge (initial_state parallel_graph) ''A'' ''B'')))
     = [False, False]"
  by (simp add: toggleEdge_def initial_state_def parallel_graph_def link_def edge_matches_def)

text \<open>
  C6 (amended): \<^verbatim>\<open>toggleEdge\<close> flips the \<^verbatim>\<open>isActive\<close> flag of every edge matching the
  unordered pair (in either endpoint order) and leaves every other edge, every other
  field of an edge, the node list and the edge order as they were; when no edge matches,
  the graph is unchanged.
\<close>

theorem toggleEdge_flips_every_match:
  "nodes (graph (toggleEdge st u v)) = nodes (graph st) \<and>
   length (edges (graph (toggleEdge st u v))) = length (edges (graph st)) \<and>
   (\<forall>i < length (edges (graph st)).
      edges (graph (toggleEdge st u v)) ! i =
        (if source (edges (graph st) ! i) = u \<and> target (edges (graph st) ! i) = v \<or>
            source (edges (graph st) ! i) = v \<and> target (edges (graph st) ! i) = u
         then (edges (graph st) ! i)\<lparr>isActive := \<not> isActive (edges (graph st) ! i)\<rparr>
         else edges (graph st) ! i)) \<and>
   ((\<forall>e \<in> set (edges (graph st)).
        \<not> (source e = u \<and> target e = v \<or> source e = v \<and> target e = u))
      \<longrightarrow> graph (toggleEdge st u v) = graph st)"
proof -
  have same: "map (\<lambda>e. if edge_matches u v e then e\<lparr>isActive := \<not> isActive e\<rparr> else e) es = es"
    if "\<forall>e \<in> set es. \<not> edge_matches u v e" for es
    using that by (induction es) auto
  show ?thesis
    using same [of "edges (graph st)"]
    by (auto simp: toggleEdge_def edge_matches_def)
qed

theorem toggleEdge_flips_every_match_witness:
  "edges (graph (toggleEdge (initial_state parallel_graph) ''B'' ''A'')) ! 1
     = link ''A'' ''B'' False \<and>
   graph (toggleEdge (initial_state parallel_graph) ''A'' ''C'') = parallel_graph"
  using toggleEdge_flips_every_match [of "initial_state parallel_graph" "''B''" "''A''"]
        toggleEdge_flips_every_match [of "initial_state parallel_graph" "''A''" "''C''"]
  by (simp add: initial_state_def parallel_graph_def link_def)

section \<open>Objects used as maps\<close>

text \<open>
  \<^verbatim>\<open>visited\<close>, \<^verbatim>\<open>prev\<close>, \<^verbatim>\<open>parent\<close>, \<^verbatim>\<open>discoveryTime\<close>, \<^verbatim>\<open>lowTime\<close> and \<^verbatim>\<open>adjList\<close> are
  objects created by \<^verbatim>\<open>{}\<close> and indexed by node ids, so they inherit from
  \<^verbatim>\<open>Object.prototype\<close>. A map holds the own properties of such an object, and the
  prototype is modelled by three facts of the language:

  \<^item> a read of a key that is no own property yields the member of \<^verbatim>\<open>Object.prototype\<close> of
    that name, if there is one, and \<^verbatim>\<open>undefined\<close> otherwise; a member is truthy, is no
    number (\<^verbatim>\<open>NaN\<close> in arithmetic), equals no string, has no \<^verbatim>\<open>push\<close> and cannot be
    iterated;

  \<^item> an assignment of a primitive value (a boolean, a number, a string) to the key
    \<^verbatim>\<open>__proto__\<close> stores nothing: it calls the setter inherited from
    \<^verbatim>\<open>Object.prototype\<close>, which ignores primitives;

  \<^item> an assignment to any other key creates or overwrites an own property.

  The names below are the own property names of \<^verbatim>\<open>Object.prototype\<close> in ECMAScript
  with the legacy members of its Annex B, as browsers and Node provide them.
\<close>

definition object_prototype_names :: "string list" where
  "object_prototype_names =
     [''constructor'', ''__defineGetter__'', ''__defineSetter__'', ''hasOwnProperty'',
      ''__lookupGetter__'', ''__lookupSetter__'', ''isPrototypeOf'', ''propertyIsEnumerable'',
      ''toString'', ''valueOf'', ''__proto__'', ''toLocaleString'']"

definition inherited :: "string \<Rightarrow> bool" where
  "inherited k \<longleftrightarrow> k \<in> set object_prototype_names"

text \<open>\<^verbatim>\<open>obj[k] = v\<close> for a primitive \<open>v\<close>.\<close>

definition store :: "(string \<rightharpoonup> 'v) \<Rightarrow> string \<Rightarrow> 'v \<Rightarrow> (string \<rightharpoonup> 'v)" where
  "store m k v = (if k = ''__proto__'' then m else m(k \<mapsto> v))"

text \<open>
  \<^verbatim>\<open>obj[k] = v\<close> for a number \<open>v\<close> that may be \<^verbatim>\<open>NaN\<close>. \<open>None\<close> stands for \<^verbatim>\<open>NaN\<close>: an
  own property holding \<^verbatim>\<open>NaN\<close> reads like a missing one in every place where the code
  reads a number.
\<close>

definition store_number :: "(string \<rightharpoonup> nat) \<Rightarrow> string \<Rightarrow> nat option \<Rightarrow> (string \<rightharpoonup> nat)" where
  "store_number m k v = (if k = ''__proto__'' then m else m(k := v))"

text \<open>
  The truth value of \<^verbatim>\<open>visited[v]\<close>: the only value ever stored is \<^verbatim>\<open>true\<close>, and an
  inherited member is truthy.
\<close>

definition is_visited :: "(string \<rightharpoonup> bool) \<Rightarrow> string \<Rightarrow> bool" where
  "is_visited vis v \<longleftrightarrow> vis v = Some True \<or> inherited v"

lemma inherited_proto: "inherited ''__proto__''"
  by (simp add: inherited_def object_prototype_names_def)

lemma not_inherited_proto: "\<not> inherited k \<Longrightarrow> k \<noteq> ''__proto__''"
  using inherited_proto by auto

lemma store_plain: "\<not> inherited k \<Longrightarrow> store m k v = m(k \<mapsto> v)"
  by (simp add: store_def not_inherited_proto)

lemma store_other: "k \<noteq> ''__proto__'' \<Longrightarrow> store m k v = m(k \<mapsto> v)"
  by (simp add: store_def)

lemma is_visited_store: "is_visited (store vis k True) v \<longleftrightarrow> v = k \<or> is_visited vis v"
  using inherited_proto by (auto simp: is_visited_def store_def)

lemma is_visited_plain: "\<not> inherited v \<Longrightarrow> is_visited vis v \<longleftrightarrow> vis v = Some True"
  by (simp add: is_visited_def)

lemma marked_store:
  "\<not> is_visited vis k \<Longrightarrow> store vis k True v = Some True \<longleftrightarrow> v = k \<or> vis v = Some True"
  by (auto simp: is_visited_def store_plain)

section \<open>Adjacency lists\<close>

text \<open>
  \<^verbatim>\<open>adjList: Record<string, string[]>\<close> is an association list from node ids to neighbour
  arrays; \<open>map_of\<close> reads an own key and \<open>AList.update\<close> writes one. A node named
  \<^verbatim>\<open>__proto__\<close> has an entry like any other: \<^verbatim>\<open>adjList["__proto__"] = []\<close> makes the new
  array the prototype of \<^verbatim>\<open>adjList\<close>, and a read of \<^verbatim>\<open>adjList["__proto__"]\<close> returns the
  prototype, that is the same array.
\<close>

type_synonym adjlist = "(string \<times> string list) list"

text \<open>
  \<^verbatim>\<open>adjList[edge.source].push(edge.target); adjList[edge.target].push(edge.source)\<close>:
  a key without an entry reads as \<^verbatim>\<open>undefined\<close> or as a value without \<^verbatim>\<open>push\<close>, and
  the call throws.
\<close>

definition addEdge :: "adjlist \<Rightarrow> edge \<Rightarrow> error + adjlist" where
  "addEdge adj e =
     (case map_of adj (source e) of
        None \<Rightarrow> Inl TypeError
      | Some ns \<Rightarrow>
          (let adj1 = AList.update (source e) (ns @ [target e]) adj in
           case map_of adj1 (target e) of
             None \<Rightarrow> Inl TypeError
           | Some ms \<Rightarrow> Inr (AList.update (target e) (ms @ [source e]) adj1)))"

fun addEdges :: "adjlist \<Rightarrow> edge list \<Rightarrow> error + adjlist" where
  "addEdges adj [] = Inr adj"
| "addEdges adj (e # es) =
     (case addEdge adj e of Inl err \<Rightarrow> Inl err | Inr adj1 \<Rightarrow> addEdges adj1 es)"

definition emptyAdjList :: "node list \<Rightarrow> adjlist" where
  "emptyAdjList ns = fold (\<lambda>n adj. AList.update (node_id n) [] adj) ns []"

definition buildAdjList :: "graph \<Rightarrow> error + adjlist" where
  "buildAdjList g = addEdges (emptyAdjList (nodes g)) (filter isActive (edges g))"

text \<open>
  \<^verbatim>\<open>for (const v of adjList[u])\<close>: the array to iterate over, or the \<^verbatim>\<open>TypeError\<close> of
  iterating over a value that is no array. A key without an entry reads as
  \<^verbatim>\<open>undefined\<close> or as an inherited member, with one exception: when a node is named
  \<^verbatim>\<open>__proto__\<close>, its array is the prototype of \<^verbatim>\<open>adjList\<close>, so a key that is an index of
  that array (in decimal notation) reads as the neighbour id at that index, a string, and
  the loop runs over its characters.
\<close>

definition digit :: "nat \<Rightarrow> char" where
  "digit d = char_of (48 + d)"

fun decimal :: "nat \<Rightarrow> string" where
  "decimal n = (if n < 10 then [digit n] else decimal (n div 10) @ [digit (n mod 10)])"

declare decimal.simps [simp del]

definition adj_entry :: "adjlist \<Rightarrow> string \<Rightarrow> error + string list" where
  "adj_entry adj k =
     (case map_of adj k of
        Some ns \<Rightarrow> Inr ns
      | None \<Rightarrow>
          (case map_of adj ''__proto__'' of
             None \<Rightarrow> Inl TypeError
           | Some arr \<Rightarrow>
               (case map_of (zip (map decimal [0..<length arr]) arr) k of
                  None \<Rightarrow> Inl TypeError
                | Some s \<Rightarrow> Inr (map (\<lambda>c. [c]) s))))"

text \<open>The data-model invariant: every edge joins two ids of the node list.\<close>

definition node_ids :: "graph \<Rightarrow> string set" where
  "node_ids g = node_id ` set (nodes g)"

definition wf_graph :: "graph \<Rightarrow> bool" where
  "wf_graph g \<longleftrightarrow> (\<forall>e \<in> set (edges g). source e \<in> node_ids g \<and> target e \<in> node_ids g)"

text \<open>
  The keys of an adjacency list, the neighbours it records for a node, and the relation
  "an active edge joins \<open>a\<close> and \<open>b\<close>" that the lists are built from.
\<close>

definition nbrs :: "adjlist \<Rightarrow> string \<Rightarrow> string set" where
  "nbrs adj a = (case map_of adj a of None \<Rightarrow> {} | Some ns \<Rightarrow> set ns)"

definition keys :: "adjlist \<Rightarrow> string set" where
  "keys adj = fst ` set adj"

lemma keys_dom: "keys adj = dom (map_of adj)"
  by (simp add: keys_def dom_map_of_conv_image_fst)

lemma map_of_keys: "map_of adj a = Some ns \<Longrightarrow> a \<in> keys adj"
  by (auto simp: keys_dom)

lemma adj_entry_key: "map_of adj k = Some ns \<Longrightarrow> adj_entry adj k = Inr ns"
  by (simp add: adj_entry_def)

lemma adj_entry_keys:
  "k \<in> keys adj \<Longrightarrow> \<exists>ns. map_of adj k = Some ns \<and> adj_entry adj k = Inr ns"
  by (auto simp: keys_dom adj_entry_def)

lemma keys_update: "keys (AList.update k v adj) = insert k (keys adj)"
  by (simp add: keys_def AList.dom_update)

lemma nbrs_update: "nbrs (AList.update k v adj) a = (if a = k then set v else nbrs adj a)"
  by (simp add: nbrs_def AList.update_conv')

lemma emptyAdjList_fold:
  "keys (fold (\<lambda>n adj. AList.update (node_id n) [] adj) ns adj) = node_id ` set ns \<union> keys adj \<and>
   (\<forall>a. nbrs (fold (\<lambda>n adj. AList.update (node_id n) [] adj) ns adj) a
          = (if a \<in> node_id ` set ns then {} else nbrs adj a))"
  by (induction ns arbitrary: adj) (auto simp: keys_update nbrs_update)

lemma keys_emptyAdjList: "keys (emptyAdjList ns) = node_id ` set ns"
  using emptyAdjList_fold [of ns "[]"] by (simp add: emptyAdjList_def keys_def)

lemma nbrs_emptyAdjList: "nbrs (emptyAdjList ns) a = {}"
  using emptyAdjList_fold [of ns "[]"] by (simp add: emptyAdjList_def nbrs_def)

lemma addEdge_Inr:
  assumes "addEdge adj e = Inr adj1"
  shows "source e \<in> keys adj" and "target e \<in> keys adj" and "keys adj1 = keys adj"
    and "nbrs adj1 a = nbrs adj a \<union> (if a = source e then {target e} else {})
                                  \<union> (if a = target e then {source e} else {})"
  using assms
  by (auto simp: addEdge_def Let_def keys_update nbrs_update keys_dom AList.update_conv' nbrs_def
           split: option.splits if_splits)

lemma addEdge_succeeds:
  assumes "source e \<in> keys adj" and "target e \<in> keys adj"
  shows "\<exists>adj1. addEdge adj e = Inr adj1"
  using assms
  by (auto simp: addEdge_def Let_def keys_dom AList.update_conv' split: option.splits)

lemma addEdges_Inr:
  assumes "addEdges adj es = Inr adj1"
  shows "keys adj1 = keys adj \<and>
         (\<forall>e \<in> set es. source e \<in> keys adj \<and> target e \<in> keys adj) \<and>
         (\<forall>a. nbrs adj1 a = nbrs adj a \<union> {b. \<exists>e \<in> set es. edge_matches a b e})"
  using assms
proof (induction es arbitrary: adj)
  case Nil
  then show ?case by simp
next
  case (Cons e es)
  then obtain adj2 where e: "addEdge adj e = Inr adj2" and es: "addEdges adj2 es = Inr adj1"
    by (auto split: sum.splits)
  note h = addEdge_Inr [OF e]
  from Cons.IH [OF es] h show ?case
    by (auto simp: edge_matches_def)
qed

lemma addEdges_succeeds:
  assumes "\<forall>e \<in> set es. source e \<in> keys adj \<and> target e \<in> keys adj"
  shows "\<exists>adj1. addEdges adj es = Inr adj1"
  using assms
proof (induction es arbitrary: adj)
  case Nil
  then show ?case by simp
next
  case (Cons e es)
  then obtain adj2 where e: "addEdge adj e = Inr adj2"
    using addEdge_succeeds [of e adj] by auto
  with Cons.prems addEdge_Inr(3) [OF e] Cons.IH [of adj2] show ?case
    by auto
qed

definition linked :: "graph \<Rightarrow> string \<Rightarrow> string \<Rightarrow> bool" where
  "linked g a b \<longleftrightarrow> (\<exists>e \<in> set (edges g). isActive e \<and> edge_matches a b e)"

lemma buildAdjList_Inr:
  assumes "buildAdjList g = Inr adj"
  shows "keys adj = node_ids g" and "nbrs adj a = {b. linked g a b}"
    and "linked g a b \<Longrightarrow> a \<in> node_ids g \<and> b \<in> node_ids g"
  using addEdges_Inr [OF assms [unfolded buildAdjList_def]]
  by (auto simp: keys_emptyAdjList nbrs_emptyAdjList node_ids_def linked_def edge_matches_def)

lemma buildAdjList_succeeds:
  assumes "wf_graph g"
  shows "\<exists>adj. buildAdjList g = Inr adj"
  unfolding buildAdjList_def
  using assms by (intro addEdges_succeeds) (auto simp: wf_graph_def keys_emptyAdjList node_ids_def)

lemma closed_adjList:
  assumes "buildAdjList g = Inr adj"
  shows "\<forall>a. nbrs adj a \<subseteq> keys adj"
  using buildAdjList_Inr [OF assms] by auto

section \<open>Breadth-first search for a shortest path\<close>

text \<open>
  The body of \<^verbatim>\<open>for (const neighbor of adjList[current])\<close> in \<^verbatim>\<open>runBFS\<close>, over the
  locals \<^verbatim>\<open>queue\<close>, \<^verbatim>\<open>visited\<close>, \<^verbatim>\<open>prev\<close> and \<^verbatim>\<open>result\<close>. A value stored in \<^verbatim>\<open>prev\<close> is
  a node id or \<^verbatim>\<open>null\<close> (\<open>None\<close>). The two assignments are reached for a neighbour with a
  falsy \<^verbatim>\<open>visited\<close> entry only, which is never \<^verbatim>\<open>__proto__\<close>.
\<close>

type_synonym bfs_locals =
  "string list \<times> (string \<rightharpoonup> bool) \<times> (string \<rightharpoonup> string option) \<times> event list"

fun bfsFor :: "string \<Rightarrow> string list \<Rightarrow> bfs_locals \<Rightarrow> bfs_locals" where
  "bfsFor current [] loc = loc"
| "bfsFor current (neighbor # rest) (queue, vis, prev, res) =
     (if \<not> is_visited vis neighbor
      then bfsFor current rest
             (queue @ [neighbor], store vis neighbor True, store prev neighbor (Some current),
              res @ [Discovered neighbor current])
      else bfsFor current rest (queue, vis, prev, res))"

text \<open>
  Every id an adjacency list can hand to the loop: its keys, the neighbours it records,
  and the characters of those neighbours.
\<close>

definition mentioned :: "adjlist \<Rightarrow> string set" where
  "mentioned adj =
     fst ` set adj \<union> (\<Union>kv \<in> set adj. set (snd kv)) \<union>
     (\<Union>kv \<in> set adj. \<Union>s \<in> set (snd kv). (\<lambda>c. [c]) ` set s)"

definition unvisited :: "adjlist \<Rightarrow> (string \<rightharpoonup> bool) \<Rightarrow> string set" where
  "unvisited adj vis = {v \<in> mentioned adj. \<not> is_visited vis v}"

lemma finite_mentioned: "finite (mentioned adj)"
  by (simp add: mentioned_def)

lemma finite_unvisited: "finite (unvisited adj vis)"
  by (simp add: unvisited_def finite_mentioned)

lemma map_of_mentioned:
  assumes "map_of adj c = Some ns"
  shows "set ns \<subseteq> mentioned adj"
proof -
  from assms have "(c, ns) \<in> set adj" by (rule map_of_SomeD)
  then show ?thesis by (force simp: mentioned_def)
qed

lemma adj_entry_mentioned:
  assumes "adj_entry adj c = Inr ns"
  shows "set ns \<subseteq> mentioned adj"
proof (cases "map_of adj c")
  case (Some ms)
  with assms map_of_mentioned [OF Some] show ?thesis
    by (simp add: adj_entry_def)
next
  case None
  with assms obtain arr s where arr: "map_of adj ''__proto__'' = Some arr"
    and s: "map_of (zip (map decimal [0..<length arr]) arr) c = Some s"
    and ns: "ns = map (\<lambda>c. [c]) s"
    by (auto simp: adj_entry_def split: option.splits)
  from arr have "(''__proto__'', arr) \<in> set adj" by (rule map_of_SomeD)
  moreover from s have "s \<in> set arr"
    by (meson map_of_SomeD set_zip_rightD)
  ultimately show ?thesis
    unfolding ns mentioned_def by force
qed

text \<open>
  One pass of the inner loop keeps the sum of the queue length and the number of
  unvisited ids: each discovered neighbour moves from the one to the other.
\<close>

lemma unvisited_store:
  "unvisited adj (store vis n True) = unvisited adj vis - {n}"
  by (auto simp: unvisited_def is_visited_store)

lemma bfsFor_measure:
  assumes "set ns \<subseteq> mentioned adj" and "bfsFor c ns (q, vis, prev, res) = (q', vis', prev', res')"
  shows "card (unvisited adj vis') + length q' = card (unvisited adj vis) + length q"
  using assms
proof (induction ns arbitrary: q vis prev res)
  case Nil
  then show ?case by simp
next
  case (Cons n ns)
  show ?case
  proof (cases "is_visited vis n")
    case True
    with Cons show ?thesis by simp
  next
    case False
    have n_in: "n \<in> unvisited adj vis"
      using Cons.prems(1) False by (simp add: unvisited_def)
    have run: "bfsFor c ns (q @ [n], store vis n True, store prev n (Some c), res @ [Discovered n c])
                 = (q', vis', prev', res')"
      using Cons.prems(2) False by simp
    have sub: "set ns \<subseteq> mentioned adj"
      using Cons.prems(1) by simp
    have "card (unvisited adj vis') + length q'
            = card (unvisited adj (store vis n True)) + length (q @ [n])"
      by (rule Cons.IH [OF sub run])
    also have "\<dots> = Suc (card (unvisited adj vis - {n})) + length q"
      by (simp add: unvisited_store)
    also have "\<dots> = card (unvisited adj vis) + length q"
      by (simp only: card_Suc_Diff1 [OF finite_unvisited n_in])
    finally show ?thesis .
  qed
qed

text \<open>
  \<^verbatim>\<open>while (queue.length > 0)\<close> of \<^verbatim>\<open>runBFS\<close>. \<^verbatim>\<open>queue.shift()\<close> takes the head; the loop
  breaks when the target is dequeued; iterating over a missing adjacency entry throws.
\<close>

function bfsLoop ::
  "adjlist \<Rightarrow> string \<Rightarrow> string list \<Rightarrow> (string \<rightharpoonup> bool) \<Rightarrow> (string \<rightharpoonup> string option)
     \<Rightarrow> event list \<Rightarrow> error + (string \<rightharpoonup> bool) \<times> (string \<rightharpoonup> string option) \<times> event list"
where
  "bfsLoop adj tgt [] vis prev res = Inr (vis, prev, res)"
| "bfsLoop adj tgt (current # queue) vis prev res =
     (if current = tgt
      then Inr (vis, prev, res @ [Visiting current, FoundTarget tgt])
      else case adj_entry adj current of
             Inl err \<Rightarrow> Inl err
           | Inr ns \<Rightarrow>
               (case bfsFor current ns (queue, vis, prev, res @ [Visiting current]) of
                  (queue1, vis1, prev1, res1) \<Rightarrow> bfsLoop adj tgt queue1 vis1 prev1 res1))"
  by pat_completeness auto
termination
proof (relation "measure (\<lambda>(adj, tgt, queue, vis, prev, res).
                            card (unvisited adj vis) + length queue)", goal_cases)
  case 1
  show ?case by simp
next
  case (2 adj tgt current queue vis prev res ns queue1 rest1 vis1 rest2 prev1 res1)
  then have "bfsFor current ns (queue, vis, prev, res @ [Visiting current])
               = (queue1, vis1, prev1, res1)"
    by simp
  from bfsFor_measure [OF adj_entry_mentioned this] 2(2)
  show ?case by simp
qed

text \<open>
  The traversal of \<^verbatim>\<open>runBFS\<close>: the adjacency lists, the initial
  \<^verbatim>\<open>queue.push(selectedNode); visited[selectedNode] = true; prev[selectedNode] = null\<close>
  and the loop. For the source \<^verbatim>\<open>__proto__\<close> neither assignment creates a property:
  the first is ignored, and the second removes the prototype of \<^verbatim>\<open>prev\<close> (the setter
  accepts \<^verbatim>\<open>null\<close>).
\<close>

definition bfsTraverse ::
  "graph \<Rightarrow> string \<Rightarrow> string
     \<Rightarrow> error + (string \<rightharpoonup> bool) \<times> (string \<rightharpoonup> string option) \<times> event list" where
  "bfsTraverse g src tgt =
     (case buildAdjList g of
        Inl err \<Rightarrow> Inl err
      | Inr adj \<Rightarrow>
          bfsLoop adj tgt [src] (store Map.empty src True) (store Map.empty src None)
            [StartingBFS src])"

text \<open>
  A read \<^verbatim>\<open>prev[k]\<close>: the own property, else the inherited member if \<^verbatim>\<open>prev\<close> still
  has its prototype, else \<^verbatim>\<open>undefined\<close>.
\<close>

definition prev_read :: "bool \<Rightarrow> (string \<rightharpoonup> string option) \<Rightarrow> string \<Rightarrow> jsval" where
  "prev_read hasProto prev k =
     (case prev k of
        Some None \<Rightarrow> Null
      | Some (Some s) \<Rightarrow> Str s
      | None \<Rightarrow> if hasProto \<and> inherited k then Member k else Undefined)"

text \<open>
  The property key that a value used as an index is converted to. For a member of
  \<^verbatim>\<open>Object.prototype\<close> it is the text that \<^verbatim>\<open>String\<close> gives; the text of a built-in function
  depends on the implementation, so it is a parameter.
\<close>

definition property_key :: "(string \<Rightarrow> string) \<Rightarrow> jsval \<Rightarrow> string" where
  "property_key memberText v =
     (case v of
        Str s \<Rightarrow> s
      | Undefined \<Rightarrow> ''undefined''
      | Null \<Rightarrow> ''null''
      | Member k \<Rightarrow> memberText k)"

text \<open>The texts as V8 gives them.\<close>

definition nativeText :: "string \<Rightarrow> string" where
  "nativeText k =
     (if k = ''__proto__'' then ''[object Object]''
      else ''function '' @ (if k = ''constructor'' then ''Object'' else k) @ ''() { [native code] }'')"

text \<open>
  Path reconstruction, \<^verbatim>\<open>while (current !== null) { shortestPath.unshift(current);
  current = prev[current] }\<close>. The loop has no bound of its own, so the model is partial:
  \<open>None\<close> means that the loop does not end.
\<close>

partial_function (option) walkPrev ::
  "(string \<Rightarrow> string) \<Rightarrow> bool \<Rightarrow> (string \<rightharpoonup> string option) \<Rightarrow> jsval \<Rightarrow> jsval list
     \<Rightarrow> jsval list option"
where
  "walkPrev memberText hasProto prev current shortestPath =
     (if current = Null then Some shortestPath
      else walkPrev memberText hasProto prev
             (prev_read hasProto prev (property_key memberText current))
             (current # shortestPath))"

text \<open>
  \<^verbatim>\<open>runBFS\<close> after its guard, for a source and a target id: traversal and reconstruction.
  The result is the value given to \<^verbatim>\<open>setPath\<close> (the empty list when no path exists) and
  the log given to \<^verbatim>\<open>setAlgorithmResult\<close>.
\<close>

definition bfsSearch ::
  "(string \<Rightarrow> string) \<Rightarrow> graph \<Rightarrow> string \<Rightarrow> string
     \<Rightarrow> (error + jsval list \<times> event list) option" where
  "bfsSearch memberText g src tgt =
     (case bfsTraverse g src tgt of
        Inl err \<Rightarrow> Some (Inl err)
      | Inr (vis, prev, res) \<Rightarrow>
          if is_visited vis tgt
          then (case walkPrev memberText (src \<noteq> ''__proto__'') prev (Str tgt) [] of
                  None \<Rightarrow> None
                | Some shortestPath \<Rightarrow>
                    Some (Inr (shortestPath, res @ [ShortestPath shortestPath])))
          else Some (Inr ([], res @ [NoPathExists src tgt])))"

text \<open>\<^verbatim>\<open>!selectedNode\<close>: true of \<^verbatim>\<open>null\<close> and of the empty string.\<close>

definition falsy :: "string option \<Rightarrow> bool" where
  "falsy v \<longleftrightarrow> v = None \<or> v = Some []"

definition runBFS :: "(string \<Rightarrow> string) \<Rightarrow> sim_state \<Rightarrow> (error + sim_state) option" where
  "runBFS memberText st =
     (if falsy (selectedNode st) \<or> falsy (targetNode st)
      then Some (Inr (st\<lparr>algorithmResult := [SelectBoth]\<rparr>))
      else case bfsSearch memberText (graph st) (the (selectedNode st)) (the (targetNode st)) of
             None \<Rightarrow> None
           | Some (Inl err) \<Rightarrow> Some (Inl err)
           | Some (Inr (shortestPath, res)) \<Rightarrow>
               Some (Inr (st\<lparr>path := shortestPath, algorithmResult := res\<rparr>)))"

declare walkPrev.simps [code]

lemma walkPrev_Null: "walkPrev t h prev Null acc = Some acc"
  by (subst walkPrev.simps) simp

lemma walkPrev_Str:
  "walkPrev t h prev (Str s) acc = walkPrev t h prev (prev_read h prev s) (Str s # acc)"
  by (subst walkPrev.simps) (simp add: property_key_def)

lemma walkPrev_Member:
  "walkPrev t h prev (Member k) acc = walkPrev t h prev (prev_read h prev (t k)) (Member k # acc)"
  by (subst walkPrev.simps) (simp add: property_key_def)

lemma walkPrev_Undefined:
  "walkPrev t h prev Undefined acc
     = walkPrev t h prev (prev_read h prev ''undefined'') (Undefined # acc)"
  by (subst walkPrev.simps) (simp add: property_key_def)

text \<open>
  A reconstruction that has reached \<^verbatim>\<open>undefined\<close> while \<^verbatim>\<open>prev\<close> has no entry for the key
  \<^verbatim>\<open>undefined\<close> reads \<^verbatim>\<open>undefined\<close> again and again.
\<close>

lemma walkPrev_Undefined_loops:
  assumes "walkPrev t h prev c a = Some y" and "prev ''undefined'' = None"
  shows "c \<noteq> Undefined"
proof -
  have "prev ''undefined'' = None \<longrightarrow> c \<noteq> Undefined"
  proof (rule walkPrev.raw_induct
      [where P = "\<lambda>t h prev c a y. prev ''undefined'' = None \<longrightarrow> c \<noteq> Undefined",
        OF _ assms(1)])
    fix f :: "(string \<Rightarrow> string) \<Rightarrow> bool \<Rightarrow> (string \<rightharpoonup> string option) \<Rightarrow> jsval \<Rightarrow> jsval list
                \<Rightarrow> jsval list option"
    fix t h prev c a y
    assume ih: "\<And>t h prev c a y. f t h prev c a = Some y
                  \<Longrightarrow> prev ''undefined'' = None \<longrightarrow> c \<noteq> Undefined"
      and step: "(if c = Null then Some a
                  else f t h prev (prev_read h prev (property_key t c)) (c # a)) = Some y"
    show "prev ''undefined'' = None \<longrightarrow> c \<noteq> Undefined"
    proof (intro impI notI)
      assume p: "prev ''undefined'' = None" and c: "c = Undefined"
      have "prev_read h prev ''undefined'' = Undefined"
        using p by (simp add: prev_read_def inherited_def object_prototype_names_def)
      with step c have "f t h prev Undefined (Undefined # a) = Some y"
        by (simp add: property_key_def)
      from ih [OF this] p show False by simp
    qed
  qed
  with assms(2) show ?thesis by simp
qed

lemma walkPrev_diverges:
  assumes "prev ''undefined'' = None"
  shows "walkPrev t h prev Undefined acc = None"
proof (cases "walkPrev t h prev Undefined acc")
  case None
  then show ?thesis .
next
  case (Some y)
  from walkPrev_Undefined_loops [OF Some assms] show ?thesis by simp
qed
subsection \<open>Predecessor chains\<close>

text \<open>
  A chain is a list of node ids, target first, in which \<^verbatim>\<open>prev\<close> leads from each id to
  the next and from the last one to \<^verbatim>\<open>null\<close>; \<open>nbr_chain\<close> says that each id is in the
  adjacency list of the next. The traversal keeps a chain for every id that it has marked
  in \<^verbatim>\<open>visited\<close>, provided that the mark of the source was stored.
\<close>

fun back_chain :: "(string \<rightharpoonup> string option) \<Rightarrow> string list \<Rightarrow> bool" where
  "back_chain prev [] = False"
| "back_chain prev [x] = (prev x = Some None)"
| "back_chain prev (x # y # r) = (prev x = Some (Some y) \<and> back_chain prev (y # r))"

fun nbr_chain :: "adjlist \<Rightarrow> string list \<Rightarrow> bool" where
  "nbr_chain adj (x # y # r) = (x \<in> nbrs adj y \<and> nbr_chain adj (y # r))"
| "nbr_chain adj r = True"

lemma walkPrev_chain:
  "back_chain prev rp \<Longrightarrow> walkPrev t h prev (Str (hd rp)) acc = Some (map Str (rev rp) @ acc)"
proof (induction prev rp arbitrary: acc rule: back_chain.induct)
  case (1 prev)
  then show ?case by simp
next
  case (2 prev x)
  then show ?case
    by (simp add: walkPrev_Str prev_read_def walkPrev_Null)
next
  case (3 prev x y r)
  then have "walkPrev t h prev (Str x) acc = walkPrev t h prev (Str y) (Str x # acc)"
    by (simp add: walkPrev_Str prev_read_def)
  also have "\<dots> = Some (map Str (rev (y # r)) @ Str x # acc)"
    using "3.IH" [of "Str x # acc"] "3.prems" by simp
  finally show ?case by simp
qed

lemma back_chain_cong:
  "(\<forall>x \<in> set rp. prev' x = prev x) \<Longrightarrow> back_chain prev' rp = back_chain prev rp"
  by (induction prev rp rule: back_chain.induct) auto

definition has_chain ::
  "adjlist \<Rightarrow> string \<Rightarrow> (string \<rightharpoonup> bool) \<Rightarrow> (string \<rightharpoonup> string option) \<Rightarrow> string \<Rightarrow> bool" where
  "has_chain adj src vis prev v \<longleftrightarrow>
     (\<exists>rp. hd rp = v \<and> last rp = src \<and> back_chain prev rp \<and> distinct rp \<and>
           (\<forall>x \<in> set rp. vis x = Some True) \<and> nbr_chain adj rp)"

definition chain_inv ::
  "adjlist \<Rightarrow> string \<Rightarrow> (string \<rightharpoonup> bool) \<Rightarrow> (string \<rightharpoonup> string option) \<Rightarrow> bool" where
  "chain_inv adj src vis prev \<longleftrightarrow> (\<forall>v. vis v = Some True \<longrightarrow> has_chain adj src vis prev v)"

lemma chain_inv_init:
  "src \<noteq> ''__proto__'' \<Longrightarrow> chain_inv adj src (store Map.empty src True) (store Map.empty src None)"
  unfolding chain_inv_def has_chain_def
  by (auto simp: store_other intro!: exI [of _ "[src]"] split: if_splits)

lemma chain_inv_step:
  assumes inv: "chain_inv adj src vis prev"
    and c: "vis c = Some True" and n: "\<not> is_visited vis n" and nb: "n \<in> nbrs adj c"
  shows "chain_inv adj src (store vis n True) (store prev n (Some c))"
proof -
  from n have plain: "\<not> inherited n" and fresh: "vis n \<noteq> Some True"
    by (simp_all add: is_visited_def)
  have sv: "store vis n True = vis(n \<mapsto> True)" and sp: "store prev n (Some c) = prev(n \<mapsto> Some c)"
    using plain by (simp_all add: store_plain)
  show ?thesis
    unfolding chain_inv_def sv sp
  proof (intro allI impI)
    fix v
    assume v: "(vis(n \<mapsto> True)) v = Some True"
    have keep: "has_chain adj src (vis(n \<mapsto> True)) (prev(n \<mapsto> Some c)) w"
      if "vis w = Some True" for w
    proof -
      from inv that obtain rp where rp: "hd rp = w" "last rp = src" "back_chain prev rp"
        "distinct rp" "\<forall>x \<in> set rp. vis x = Some True" "nbr_chain adj rp"
        unfolding chain_inv_def has_chain_def by blast
      from rp(5) fresh have "n \<notin> set rp" by blast
      then have "back_chain (prev(n \<mapsto> Some c)) rp"
        using rp(3) back_chain_cong [of rp "prev(n \<mapsto> Some c)" prev] by auto
      with rp show ?thesis
        unfolding has_chain_def by (intro exI [of _ rp]) auto
    qed
    show "has_chain adj src (vis(n \<mapsto> True)) (prev(n \<mapsto> Some c)) v"
    proof (cases "v = n")
      case False
      with v have "vis v = Some True" by simp
      then show ?thesis by (rule keep)
    next
      case True
      from inv c obtain rp where rp: "hd rp = c" "last rp = src" "back_chain prev rp"
        "distinct rp" "\<forall>x \<in> set rp. vis x = Some True" "nbr_chain adj rp"
        unfolding chain_inv_def has_chain_def by blast
      from rp(3) obtain r where r: "rp = c # r"
        using rp(1) by (cases rp) auto
      from rp(5) fresh have nin: "n \<notin> set rp" by blast
      then have bc: "back_chain (prev(n \<mapsto> Some c)) rp"
        using rp(3) back_chain_cong [of rp "prev(n \<mapsto> Some c)" prev] by auto
      show ?thesis
        unfolding has_chain_def True
        using rp r nin bc nb
        by (intro exI [of _ "n # rp"]) auto
    qed
  qed
qed

lemma bfsFor_chain_inv:
  assumes "chain_inv adj src vis prev" and "vis c = Some True" and "set ns \<subseteq> nbrs adj c"
    and "bfsFor c ns (q, vis, prev, res) = (q', vis', prev', res')"
  shows "chain_inv adj src vis' prev'"
  using assms
proof (induction ns arbitrary: q vis prev res)
  case Nil
  then show ?case by simp
next
  case (Cons n ns)
  show ?case
  proof (cases "is_visited vis n")
    case True
    with Cons.prems show ?thesis by (intro Cons.IH [of vis prev q res]) auto
  next
    case False
    have f1: "chain_inv adj src (store vis n True) (store prev n (Some c))"
      using Cons.prems False by (intro chain_inv_step) auto
    have f2: "store vis n True c = Some True"
      using Cons.prems(2) by (simp add: marked_store [OF False])
    have f3: "set ns \<subseteq> nbrs adj c"
      using Cons.prems(3) by simp
    have f4: "bfsFor c ns (q @ [n], store vis n True, store prev n (Some c), res @ [Discovered n c])
                = (q', vis', prev', res')"
      using Cons.prems(4) False by simp
    show ?thesis
      by (rule Cons.IH [OF f1 f2 f3 f4])
  qed
qed

subsection \<open>The log of a traversal\<close>

text \<open>
  \<^verbatim>\<open>queue.push\<close> is called once with the source (logged as "Starting BFS") and once per
  "Discovered" line; \<^verbatim>\<open>queue.shift\<close> is called once per "Visiting" line. So the log
  yields the sequence of enqueued and of dequeued ids.
\<close>

fun enq :: "event \<Rightarrow> string list" where
  "enq (StartingBFS s) = [s]"
| "enq (Discovered n c) = [n]"
| "enq e = []"

definition enqueued :: "event list \<Rightarrow> string list" where
  "enqueued res = concat (map enq res)"

fun deq :: "event \<Rightarrow> string list" where
  "deq (Visiting c) = [c]"
| "deq e = []"

definition dequeued :: "event list \<Rightarrow> string list" where
  "dequeued res = concat (map deq res)"

text \<open>The ids with a truthy \<^verbatim>\<open>visited\<close> entry, and those whose entry was stored.\<close>

definition visited_set :: "(string \<rightharpoonup> bool) \<Rightarrow> string set" where
  "visited_set vis = {v. is_visited vis v}"

definition marked_set :: "(string \<rightharpoonup> bool) \<Rightarrow> string set" where
  "marked_set vis = {v. vis v = Some True}"

lemma visited_set_store: "visited_set (store vis n True) = insert n (visited_set vis)"
  by (auto simp: visited_set_def is_visited_store)

lemma marked_set_store:
  "\<not> is_visited vis n \<Longrightarrow> marked_set (store vis n True) = insert n (marked_set vis)"
  by (auto simp: marked_set_def marked_store)

lemma bfsFor_effect:
  assumes "bfsFor c ns (q, vis, prev, res) = (q', vis', prev', res')"
  shows "\<exists>new. q' = q @ new \<and> enqueued res' = enqueued res @ new \<and>
               dequeued res' = dequeued res \<and> distinct new \<and>
               set new \<inter> visited_set vis = {} \<and>
               visited_set vis' = visited_set vis \<union> set new \<and> set new \<subseteq> set ns \<and>
               marked_set vis' = marked_set vis \<union> set new"
  using assms
proof (induction ns arbitrary: q vis prev res)
  case Nil
  then show ?case by simp
next
  case (Cons n ns)
  show ?case
  proof (cases "is_visited vis n")
    case True
    with Cons.prems have "bfsFor c ns (q, vis, prev, res) = (q', vis', prev', res')"
      by simp
    from Cons.IH [OF this] show ?thesis by auto
  next
    case False
    with Cons.prems have
      "bfsFor c ns (q @ [n], store vis n True, store prev n (Some c), res @ [Discovered n c])
         = (q', vis', prev', res')"
      by simp
    from Cons.IH [OF this] obtain new where new:
      "q' = (q @ [n]) @ new" "enqueued res' = enqueued (res @ [Discovered n c]) @ new"
      "dequeued res' = dequeued (res @ [Discovered n c])" "distinct new"
      "set new \<inter> visited_set (store vis n True) = {}"
      "visited_set vis' = visited_set (store vis n True) \<union> set new" "set new \<subseteq> set ns"
      "marked_set vis' = marked_set (store vis n True) \<union> set new"
      by blast
    have "n \<notin> visited_set vis"
      using False by (simp add: visited_set_def)
    with new show ?thesis
      by (intro exI [of _ "n # new"])
         (auto simp: visited_set_store marked_set_store [OF False] enqueued_def dequeued_def)
  qed
qed

lemma map_of_nbrs: "map_of adj c = Some ns \<Longrightarrow> nbrs adj c = set ns"
  by (simp add: nbrs_def)

lemma adj_entry_nbrs:
  assumes "c \<in> keys adj" and "adj_entry adj c = Inr ns"
  shows "nbrs adj c = set ns"
  using adj_entry_keys [OF assms(1)] assms(2) by (auto simp: nbrs_def)

lemma bfsLoop_chain_inv:
  assumes "\<forall>a. nbrs adj a \<subseteq> keys adj"
    and "chain_inv adj src vis prev" and "set q \<subseteq> marked_set vis" and "set q \<subseteq> keys adj"
    and "bfsLoop adj tgt q vis prev res = Inr (vis', prev', res')"
  shows "chain_inv adj src vis' prev'"
  using assms
proof (induction adj tgt q vis prev res rule: bfsLoop.induct)
  case (1 adj tgt vis prev res)
  then show ?case by simp
next
  case (2 adj tgt current queue vis prev res)
  show ?case
  proof (cases "current = tgt")
    case True
    with "2.prems" show ?thesis by simp
  next
    case False
    with "2.prems"(5) obtain ns where ns: "adj_entry adj current = Inr ns"
      by (auto split: sum.splits)
    obtain queue1 vis1 prev1 res1 where
      run1: "bfsFor current ns (queue, vis, prev, res @ [Visiting current]) = (queue1, vis1, prev1, res1)"
      by (metis prod_cases4)
    from "2.prems"(3) have cur: "vis current = Some True"
      by (simp add: marked_set_def)
    from "2.prems"(4) have key: "current \<in> keys adj"
      by simp
    have nb: "nbrs adj current = set ns"
      by (rule adj_entry_nbrs [OF key ns])
    have inv1: "chain_inv adj src vis1 prev1"
      using bfsFor_chain_inv [OF "2.prems"(2) cur _ run1] nb by simp
    from bfsFor_effect [OF run1] obtain new where new:
      "queue1 = queue @ new" "set new \<subseteq> set ns" "marked_set vis1 = marked_set vis \<union> set new"
      by blast
    have q1: "set queue1 \<subseteq> marked_set vis1"
      using "2.prems"(3) new by auto
    have "set ns \<subseteq> keys adj"
      using "2.prems"(1) nb by blast
    then have k1: "set queue1 \<subseteq> keys adj"
      using "2.prems"(4) new by auto
    have run: "bfsLoop adj tgt queue1 vis1 prev1 res1 = Inr (vis', prev', res')"
      using "2.prems"(5) False ns run1 by simp
    from "2.IH" [OF False ns run1 [symmetric], of vis1 "(prev1, res1)" prev1 res1]
      "2.prems"(1) inv1 q1 k1 run
    show ?thesis by auto
  qed
qed

lemma nbr_chain_nth:
  "nbr_chain adj rp \<Longrightarrow> Suc i < length rp \<Longrightarrow> rp ! i \<in> nbrs adj (rp ! Suc i)"
proof (induction adj rp arbitrary: i rule: nbr_chain.induct)
  case (1 adj x y r)
  then show ?case by (cases i) auto
qed auto

lemma enqueued_append: "enqueued (xs @ ys) = enqueued xs @ enqueued ys"
  by (simp add: enqueued_def)

lemma dequeued_append: "dequeued (xs @ ys) = dequeued xs @ dequeued ys"
  by (simp add: dequeued_def)

lemma bfsLoop_log_inv:
  assumes "\<forall>a. nbrs adj a \<subseteq> keys adj"
    and "dequeued res @ q = enqueued res"
    and "distinct (enqueued res)"
    and "set (enqueued res) \<subseteq> visited_set vis"
    and "set (enqueued res) \<subseteq> keys adj"
    and "marked_set vis \<subseteq> set (enqueued res)"
  shows "\<exists>vis' prev' res'. bfsLoop adj tgt q vis prev res = Inr (vis', prev', res') \<and>
           distinct (enqueued res') \<and> set (enqueued res') \<subseteq> keys adj \<and>
           marked_set vis' \<subseteq> set (enqueued res') \<and>
           (\<exists>rest. dequeued res' @ rest = enqueued res')"
  using assms
proof (induction adj tgt q vis prev res rule: bfsLoop.induct)
  case (1 adj tgt vis prev res)
  then show ?case by auto
next
  case (2 adj tgt current queue vis prev res)
  show ?case
  proof (cases "current = tgt")
    case True
    with "2.prems" show ?thesis
      by (auto simp: enqueued_append dequeued_append enqueued_def [of "[_, _]"] dequeued_def [of "[_, _]"])
  next
    case False
    have "current \<in> set (enqueued res)"
      using "2.prems"(2) by (metis in_set_conv_decomp)
    with "2.prems"(5) have key: "current \<in> keys adj" by auto
    from adj_entry_keys [OF key] obtain ns where
      ns: "adj_entry adj current = Inr ns" and nb: "nbrs adj current = set ns"
      by (auto simp: nbrs_def)
    obtain queue1 vis1 prev1 res1 where
      run1: "bfsFor current ns (queue, vis, prev, res @ [Visiting current]) = (queue1, vis1, prev1, res1)"
      by (metis prod_cases4)
    from bfsFor_effect [OF run1] obtain new where new:
      "queue1 = queue @ new" "enqueued res1 = enqueued (res @ [Visiting current]) @ new"
      "dequeued res1 = dequeued (res @ [Visiting current])" "distinct new"
      "set new \<inter> visited_set vis = {}" "visited_set vis1 = visited_set vis \<union> set new"
      "set new \<subseteq> set ns" "marked_set vis1 = marked_set vis \<union> set new"
      by blast
    have e1: "enqueued res1 = enqueued res @ new"
      using new(2) by (simp add: enqueued_append enqueued_def [of "[_]"])
    have d1: "dequeued res1 = dequeued res @ [current]"
      using new(3) by (simp add: dequeued_append dequeued_def [of "[_]"])
    have sub: "set ns \<subseteq> keys adj"
      using "2.prems"(1) nb by blast
    have p2: "dequeued res1 @ queue1 = enqueued res1"
      using "2.prems"(2) new(1) e1 d1 by simp
    have p3: "distinct (enqueued res1)"
      using "2.prems"(3,4) new(4,5) e1 by auto
    have p4: "set (enqueued res1) \<subseteq> visited_set vis1"
      using "2.prems"(4) new(6) e1 by auto
    have p5: "set (enqueued res1) \<subseteq> keys adj"
      using "2.prems"(5) new(7) sub e1 by auto
    have p6: "marked_set vis1 \<subseteq> set (enqueued res1)"
      using "2.prems"(6) new(8) e1 by auto
    from "2.IH" [OF False ns run1 [symmetric], of vis1 "(prev1, res1)" prev1 res1]
      "2.prems"(1) p2 p3 p4 p5 p6 False ns run1
    show ?thesis by simp
  qed
qed

lemma bfsLoop_from_source:
  assumes adj: "buildAdjList g = Inr adj" and src: "src \<in> node_ids g"
  shows "\<exists>vis prev res.
           bfsLoop adj tgt [src] (store Map.empty src True) (store Map.empty src None)
             [StartingBFS src] = Inr (vis, prev, res) \<and>
           distinct (enqueued res) \<and> set (enqueued res) \<subseteq> node_ids g \<and>
           marked_set vis \<subseteq> set (enqueued res) \<and> (\<exists>rest. dequeued res @ rest = enqueued res)"
proof -
  have "src \<in> visited_set (store Map.empty src True)"
    by (simp add: visited_set_def is_visited_store)
  moreover have "marked_set (store Map.empty src True) \<subseteq> {src}"
    by (auto simp: marked_set_def store_def split: if_splits)
  ultimately show ?thesis
    using bfsLoop_log_inv [OF closed_adjList [OF adj],
        of "[StartingBFS src]" "[src]" "store Map.empty src True" tgt "store Map.empty src None"]
      src buildAdjList_Inr(1) [OF adj]
    by (simp add: enqueued_def dequeued_def)
qed

subsection \<open>Example graphs\<close>

text \<open>A cycle A-B-C-D-A, all links up.\<close>

definition cycle_graph :: graph where
  "cycle_graph =
     \<lparr>nodes = [site ''A'' Hub 0 0, site ''B'' City 10 0, site ''C'' City 10 10,
               site ''D'' Barangay 0 10],
      edges = [link ''A'' ''B'' True, link ''B'' ''C'' True, link ''C'' ''D'' True,
               link ''D'' ''A'' True]\<rparr>"

text \<open>Two nodes without a link, named \<^verbatim>\<open>undefined\<close> and \<^verbatim>\<open>constructor\<close>.\<close>

definition stray_graph :: graph where
  "stray_graph =
     \<lparr>nodes = [site ''undefined'' Hub 0 0, site ''constructor'' City 10 0], edges = []\<rparr>"

lemmas graph_eval =
  bfsSearch_def bfsTraverse_def buildAdjList_def emptyAdjList_def addEdge_def adj_entry_def
  link_def site_def is_visited_def inherited_def object_prototype_names_def store_def
  prev_read_def walkPrev_Str walkPrev_Member walkPrev_Null

lemma cycle_traverse:
  "\<exists>vis prev. bfsTraverse cycle_graph ''A'' ''C'' =
     Inr (vis, prev,
       [StartingBFS ''A'', Visiting ''A'', Discovered ''B'' ''A'', Discovered ''D'' ''A'',
        Visiting ''B'', Discovered ''C'' ''B'', Visiting ''D'', Visiting ''C'',
        FoundTarget ''C''])"
  by (simp add: graph_eval cycle_graph_def)

lemma cycle_search:
  "bfsSearch nativeText cycle_graph ''A'' ''C'' =
     Some (Inr ([Str ''A'', Str ''B'', Str ''C''],
       [StartingBFS ''A'', Visiting ''A'', Discovered ''B'' ''A'', Discovered ''D'' ''A'',
        Visiting ''B'', Discovered ''C'' ''B'', Visiting ''D'', Visiting ''C'',
        FoundTarget ''C'', ShortestPath [Str ''A'', Str ''B'', Str ''C'']]))"
  by (simp add: graph_eval cycle_graph_def)

lemma wf_cycle_graph: "wf_graph cycle_graph"
  by (simp add: wf_graph_def node_ids_def cycle_graph_def link_def site_def)

lemma node_ids_cycle_graph: "node_ids cycle_graph = {''A'', ''B'', ''C'', ''D''}"
  by (simp add: node_ids_def cycle_graph_def site_def)

lemma wf_parallel_graph: "wf_graph parallel_graph"
  by (simp add: wf_graph_def node_ids_def parallel_graph_def link_def site_def)

lemma node_ids_parallel_graph: "node_ids parallel_graph = {''A'', ''B''}"
  by (simp add: node_ids_def parallel_graph_def site_def)

subsection \<open>Paths between ids that are no member names\<close>

text \<open>
  When the source is in the node list and is not \<^verbatim>\<open>__proto__\<close>, and the target is no
  name of a member of \<^verbatim>\<open>Object.prototype\<close>, a path that the search returns consists of
  node ids, starts at the source, ends at the target, repeats no node, and every two
  consecutive nodes are joined by an active edge.
\<close>

lemma bfsSearch_path_valid:
  assumes r: "bfsSearch t g src tgt = Some (Inr (p, res))" and ne: "p \<noteq> []"
    and src: "src \<in> node_ids g" and sp: "src \<noteq> ''__proto__''" and tg: "\<not> inherited tgt"
  shows "\<exists>ids. p = map Str ids \<and> hd ids = src \<and> last ids = tgt \<and> distinct ids \<and>
           (\<forall>i. Suc i < length ids \<longrightarrow> linked g (ids ! i) (ids ! Suc i))"
proof -
  from r obtain adj where adj: "buildAdjList g = Inr adj"
    by (auto simp: bfsSearch_def bfsTraverse_def split: sum.splits)
  from r adj obtain vis prev res1 where
    loop: "bfsLoop adj tgt [src] (store Map.empty src True) (store Map.empty src None)
             [StartingBFS src] = Inr (vis, prev, res1)"
    by (auto simp: bfsSearch_def bfsTraverse_def split: sum.splits)
  from r ne adj loop have "is_visited vis tgt"
    by (auto simp: bfsSearch_def bfsTraverse_def split: if_splits)
  with tg have vis: "vis tgt = Some True"
    by (simp add: is_visited_plain)
  have q0: "set [src] \<subseteq> marked_set (store Map.empty src True)"
    using sp by (simp add: marked_set_def store_other)
  have k0: "set [src] \<subseteq> keys adj"
    using src buildAdjList_Inr(1) [OF adj] by simp
  from bfsLoop_chain_inv [OF closed_adjList [OF adj] chain_inv_init [OF sp] q0 k0 loop] vis
  obtain rp where rp: "hd rp = tgt" "last rp = src" "back_chain prev rp" "distinct rp"
    "nbr_chain adj rp"
    unfolding chain_inv_def has_chain_def by blast
  from rp(3) have rpne: "rp \<noteq> []" by auto
  from walkPrev_chain [OF rp(3), of t "src \<noteq> ''__proto__''" "[]"] rp(1)
  have "walkPrev t (src \<noteq> ''__proto__'') prev (Str tgt) [] = Some (map Str (rev rp))"
    by simp
  with r adj loop \<open>is_visited vis tgt\<close> have p: "p = map Str (rev rp)"
    by (simp add: bfsSearch_def bfsTraverse_def)
  have "linked g (rev rp ! i) (rev rp ! Suc i)" if i: "Suc i < length (rev rp)" for i
  proof -
    let ?k = "length rp - Suc (Suc i)"
    from i have k: "Suc ?k < length rp" "Suc ?k = length rp - Suc i"
      by auto
    from i have "rev rp ! i = rp ! Suc ?k" "rev rp ! Suc i = rp ! ?k"
      using k(2) by (simp_all add: rev_nth)
    with nbr_chain_nth [OF rp(5) k(1)] buildAdjList_Inr(2) [OF adj, of "rev rp ! i"]
    show ?thesis by simp
  qed
  with rp rpne p show ?thesis
    by (intro exI [of _ "rev rp"]) (simp add: hd_rev last_rev)
qed

section \<open>Properties of the shortest-path search\<close>

text \<open>
  C3 does not hold of the code for every graph: \<^verbatim>\<open>visited[targetNode]\<close> is truthy for a
  target named like a member of \<^verbatim>\<open>Object.prototype\<close> although the traversal never reached
  it, and the reconstruction then follows inherited members. In the graph of the two
  unlinked nodes \<^verbatim>\<open>undefined\<close> and \<^verbatim>\<open>constructor\<close>, the search from the first to the second
  returns a path of three elements, \<^verbatim>\<open>undefined\<close> (the value, not the id), the function
  \<^verbatim>\<open>Object\<close> and the id \<^verbatim>\<open>constructor\<close>: it does not start at the source, and no edge joins
  its elements. (\<open>bfsSearch_path_valid\<close> above shows what holds for the other ids.)
\<close>

theorem bfsSearch_inherited_target:
  "bfsSearch nativeText stray_graph ''undefined'' ''constructor'' =
     Some (Inr ([Undefined, Member ''constructor'', Str ''constructor''],
       [StartingBFS ''undefined'', Visiting ''undefined'',
        ShortestPath [Undefined, Member ''constructor'', Str ''constructor'']]))"
  by (simp add: graph_eval walkPrev_Undefined nativeText_def stray_graph_def)

text \<open>
  C8, as stated, fails for the empty id: the guard \<^verbatim>\<open>!selectedNode || !targetNode\<close> of
  \<^verbatim>\<open>runBFS\<close> takes the empty string for a missing selection, so no path is set. (It
  fails for the id \<^verbatim>\<open>__proto__\<close> as well, where the reconstruction does not end.)
\<close>

theorem runBFS_same_node_counterexample:
  "runBFS nativeText ((initial_state \<lparr>nodes = [site '''' Hub 0 0], edges = []\<rparr>)
       \<lparr>selectedNode := Some '''', targetNode := Some ''''\<rparr>)
     = Some (Inr ((initial_state \<lparr>nodes = [site '''' Hub 0 0], edges = []\<rparr>)
          \<lparr>selectedNode := Some '''', targetNode := Some '''', path := [],
           algorithmResult := [SelectBoth]\<rparr>)) \<and>
   runBFS nativeText ((initial_state \<lparr>nodes = [site ''__proto__'' Hub 0 0], edges = []\<rparr>)
       \<lparr>selectedNode := Some ''__proto__'', targetNode := Some ''__proto__''\<rparr>)
     = None"
  by (simp add: runBFS_def falsy_def graph_eval initial_state_def walkPrev_diverges)

text \<open>
  C8 (amended): for every graph (satisfying the data-model invariant) and every id \<open>x\<close> of
  its node list other than the empty string and \<^verbatim>\<open>__proto__\<close>, \<^verbatim>\<open>runBFS\<close> with \<open>x\<close>
  selected as source and as target sets the path consisting of \<open>x\<close> alone, that is zero
  hops.
\<close>

theorem runBFS_same_node:
  assumes "wf_graph (graph st)" and "x \<in> node_ids (graph st)"
    and "selectedNode st = Some x" and "targetNode st = Some x"
    and "x \<noteq> []" and "x \<noteq> ''__proto__''"
  shows "runBFS memberText st =
           Some (Inr (st\<lparr>path := [Str x],
                         algorithmResult := [StartingBFS x, Visiting x, FoundTarget x,
                                             ShortestPath [Str x]]\<rparr>))"
proof -
  from buildAdjList_succeeds [OF assms(1)] obtain adj where "buildAdjList (graph st) = Inr adj" ..
  with assms(3-6) show ?thesis
    by (simp add: runBFS_def falsy_def bfsSearch_def bfsTraverse_def is_visited_def
          walkPrev_Str walkPrev_Null prev_read_def store_other)
qed

theorem runBFS_same_node_witness:
  "wf_graph (graph ((initial_state cycle_graph)\<lparr>selectedNode := Some ''C'', targetNode := Some ''C''\<rparr>)) \<and>
   ''C'' \<in> node_ids cycle_graph \<and>
   runBFS nativeText ((initial_state cycle_graph)\<lparr>selectedNode := Some ''C'', targetNode := Some ''C''\<rparr>)
     = Some (Inr ((initial_state cycle_graph)
          \<lparr>selectedNode := Some ''C'', targetNode := Some ''C'', path := [Str ''C''],
           algorithmResult := [StartingBFS ''C'', Visiting ''C'', FoundTarget ''C'',
                               ShortestPath [Str ''C'']]\<rparr>))"
  using runBFS_same_node [of "(initial_state cycle_graph)\<lparr>selectedNode := Some ''C'',
      targetNode := Some ''C''\<rparr>" "''C''" nativeText] wf_cycle_graph
  by (simp add: initial_state_def node_ids_cycle_graph)

text \<open>
  C10: in a graph whose edges all join ids of the node list, the traversal from an id of
  the node list ends without an exception, whatever the target; no id is enqueued twice;
  every dequeued id (the ids whose adjacency entry is read) was enqueued and has an
  adjacency entry; and the loop runs at most once per node id.
\<close>

theorem bfsTraverse_enqueues_once:
  assumes "wf_graph g" and "src \<in> node_ids g"
  shows "\<exists>adj vis prev res. buildAdjList g = Inr adj \<and>
           bfsTraverse g src tgt = Inr (vis, prev, res) \<and>
           distinct (enqueued res) \<and> set (enqueued res) \<subseteq> node_ids g \<and>
           (\<forall>c \<in> set (dequeued res). c \<in> set (enqueued res) \<and> map_of adj c \<noteq> None) \<and>
           length (dequeued res) \<le> card (node_ids g)"
proof -
  from buildAdjList_succeeds [OF assms(1)] obtain adj where adj: "buildAdjList g = Inr adj" ..
  from bfsLoop_from_source [OF adj assms(2), of tgt] obtain vis prev res rest where loop:
    "bfsLoop adj tgt [src] (store Map.empty src True) (store Map.empty src None)
       [StartingBFS src] = Inr (vis, prev, res)"
    "distinct (enqueued res)" "set (enqueued res) \<subseteq> node_ids g"
    "dequeued res @ rest = enqueued res"
    by blast
  have run: "bfsTraverse g src tgt = Inr (vis, prev, res)"
    using adj loop(1) by (simp add: bfsTraverse_def)
  have sub: "set (dequeued res) \<subseteq> set (enqueued res)"
    using loop(4) by (metis set_append Un_upper1)
  have "length (dequeued res) \<le> length (enqueued res)"
    using loop(4) by (metis length_append le_add1)
  also have "\<dots> = card (set (enqueued res))"
    using loop(2) by (simp add: distinct_card)
  also have "\<dots> \<le> card (node_ids g)"
    using loop(3) by (intro card_mono) (auto simp: node_ids_def)
  finally have bound: "length (dequeued res) \<le> card (node_ids g)" .
  have look: "map_of adj c \<noteq> None" if "c \<in> set (dequeued res)" for c
  proof -
    from that sub loop(3) have "c \<in> keys adj"
      using buildAdjList_Inr(1) [OF adj] by auto
    then show ?thesis by (auto simp: keys_dom)
  qed
  show ?thesis
    using adj run sub bound look loop(2,3)
    by (intro exI [of _ adj] exI [of _ vis] exI [of _ prev] exI [of _ res]) auto
qed

theorem bfsTraverse_enqueues_once_witness:
  "wf_graph cycle_graph \<and> ''A'' \<in> node_ids cycle_graph \<and>
   (\<exists>vis prev res. bfsTraverse cycle_graph ''A'' ''C'' = Inr (vis, prev, res) \<and>
      enqueued res = [''A'', ''B'', ''D'', ''C''] \<and>
      dequeued res = [''A'', ''B'', ''D'', ''C''] \<and>
      distinct (enqueued res) \<and> length (dequeued res) \<le> card (node_ids cycle_graph))"
proof -
  have a: "''A'' \<in> node_ids cycle_graph"
    by (simp add: node_ids_cycle_graph)
  from bfsTraverse_enqueues_once [OF wf_cycle_graph a, of "''C''"] obtain vis prev res where
    r: "bfsTraverse cycle_graph ''A'' ''C'' = Inr (vis, prev, res)" "distinct (enqueued res)"
      "length (dequeued res) \<le> card (node_ids cycle_graph)"
    by (elim exE conjE)
  from cycle_traverse r(1) have res: "res =
       [StartingBFS ''A'', Visiting ''A'', Discovered ''B'' ''A'', Discovered ''D'' ''A'',
        Visiting ''B'', Discovered ''C'' ''B'', Visiting ''D'', Visiting ''C'',
        FoundTarget ''C'']"
    by (elim exE) simp
  have "enqueued res = [''A'', ''B'', ''D'', ''C'']" "dequeued res = [''A'', ''B'', ''D'', ''C'']"
    by (simp_all add: res enqueued_def dequeued_def)
  with r wf_cycle_graph a show ?thesis
    by (intro conjI exI [of _ vis] exI [of _ prev] exI [of _ res])
qed

text \<open>
  C5, as stated, fails: the code has no \<^verbatim>\<open>InvalidNode\<close> error and does not check the ids.
  With the target absent from the node list the search ends with "No path exists"; with
  the source absent it throws at the adjacency lookup, or, if the target is the same
  absent id, returns that id as a path.
\<close>

theorem runBFS_absent_node_counterexample:
  "runBFS nativeText
     ((initial_state parallel_graph)\<lparr>selectedNode := Some ''A'', targetNode := Some ''Z''\<rparr>)
     = Some (Inr ((initial_state parallel_graph)
          \<lparr>selectedNode := Some ''A'', targetNode := Some ''Z'', path := [],
           algorithmResult := [StartingBFS ''A'', Visiting ''A'', Discovered ''B'' ''A'',
                               Visiting ''B'', NoPathExists ''A'' ''Z'']\<rparr>)) \<and>
   runBFS nativeText
     ((initial_state parallel_graph)\<lparr>selectedNode := Some ''Z'', targetNode := Some ''A''\<rparr>)
     = Some (Inl TypeError) \<and>
   runBFS nativeText
     ((initial_state parallel_graph)\<lparr>selectedNode := Some ''Z'', targetNode := Some ''Z''\<rparr>)
     = Some (Inr ((initial_state parallel_graph)
          \<lparr>selectedNode := Some ''Z'', targetNode := Some ''Z'', path := [Str ''Z''],
           algorithmResult := [StartingBFS ''Z'', Visiting ''Z'', FoundTarget ''Z'',
                               ShortestPath [Str ''Z'']]\<rparr>))"
  by (simp add: runBFS_def falsy_def graph_eval initial_state_def parallel_graph_def)

text \<open>
  With an absent target named like a member of \<^verbatim>\<open>Object.prototype\<close> the entry
  \<^verbatim>\<open>visited[targetNode]\<close> is truthy, and the reconstruction does not end.
\<close>

lemma runBFS_inherited_target:
  "runBFS nativeText
     ((initial_state parallel_graph)
        \<lparr>selectedNode := Some ''A'', targetNode := Some ''constructor''\<rparr>)
     = None"
  by (simp add: runBFS_def falsy_def graph_eval initial_state_def parallel_graph_def
        nativeText_def walkPrev_diverges)

text \<open>
  C5 (amended): for a graph satisfying the data-model invariant, a selected source that
  is in the node list and a selected target that is not (and is no name of a member of
  \<^verbatim>\<open>Object.prototype\<close>), \<^verbatim>\<open>runBFS\<close> returns normally with the empty path and a log ending
  in "No path exists"; it raises no error.
\<close>

theorem runBFS_absent_target:
  assumes "wf_graph (graph st)"
    and "selectedNode st = Some src" and "targetNode st = Some tgt"
    and "src \<noteq> []" and "tgt \<noteq> []"
    and "src \<in> node_ids (graph st)" and "tgt \<notin> node_ids (graph st)"
    and "\<not> inherited tgt"
  shows "\<exists>res. runBFS memberText st
           = Some (Inr (st\<lparr>path := [], algorithmResult := res @ [NoPathExists src tgt]\<rparr>))"
proof -
  from buildAdjList_succeeds [OF assms(1)] obtain adj where adj: "buildAdjList (graph st) = Inr adj" ..
  from bfsLoop_from_source [OF adj assms(6), of tgt] obtain vis prev res where loop:
    "bfsLoop adj tgt [src] (store Map.empty src True) (store Map.empty src None)
       [StartingBFS src] = Inr (vis, prev, res)"
    "set (enqueued res) \<subseteq> node_ids (graph st)" "marked_set vis \<subseteq> set (enqueued res)"
    by blast
  with assms(7) have "vis tgt \<noteq> Some True"
    by (auto simp: marked_set_def)
  with assms(8) have "\<not> is_visited vis tgt"
    by (simp add: is_visited_plain)
  with adj loop(1) assms show ?thesis
    by (intro exI [of _ res])
       (simp add: runBFS_def falsy_def bfsSearch_def bfsTraverse_def del: bfsLoop.simps)
qed

theorem runBFS_absent_target_witness:
  "\<exists>res. runBFS nativeText
       ((initial_state parallel_graph)\<lparr>selectedNode := Some ''A'', targetNode := Some ''Z''\<rparr>)
     = Some (Inr ((initial_state parallel_graph)
          \<lparr>selectedNode := Some ''A'', targetNode := Some ''Z'', path := [],
           algorithmResult := res @ [NoPathExists ''A'' ''Z'']\<rparr>))"
  using runBFS_absent_target [of "(initial_state parallel_graph)\<lparr>selectedNode := Some ''A'',
      targetNode := Some ''Z''\<rparr>" "''A''" "''Z''" nativeText] wf_parallel_graph
  by (simp add: initial_state_def node_ids_parallel_graph inherited_def object_prototype_names_def)

section \<open>Depth-first search for bridges and articulation points\<close>

text \<open>
  The variables that \<^verbatim>\<open>dfsVisit\<close> closes over and mutates: \<^verbatim>\<open>visited\<close>,
  \<^verbatim>\<open>discoveryTime\<close>, \<^verbatim>\<open>lowTime\<close>, \<^verbatim>\<open>parent\<close>, \<^verbatim>\<open>foundBridges\<close>,
  \<^verbatim>\<open>foundArticulationPoints\<close> and the counter \<^verbatim>\<open>time\<close>.
\<close>

record dfs_state =
  visited :: "string \<rightharpoonup> bool"
  discoveryTime :: "string \<rightharpoonup> nat"
  lowTime :: "string \<rightharpoonup> nat"
  parent :: "string \<rightharpoonup> string"
  foundBridges :: "edge list"
  foundArticulationPoints :: "string set"
  time :: nat

text \<open>
  A read of \<^verbatim>\<open>lowTime\<close> or \<^verbatim>\<open>discoveryTime\<close> may yield \<^verbatim>\<open>undefined\<close>, \<^verbatim>\<open>NaN\<close> or a
  member of \<^verbatim>\<open>Object.prototype\<close>. \<^verbatim>\<open>Math.min\<close> of such an argument is \<^verbatim>\<open>NaN\<close>, and a
  comparison of a number with such a value is false; \<open>None\<close> stands for all of them. (The
  left operand of each comparison in \<^verbatim>\<open>dfsVisit\<close> is \<^verbatim>\<open>lowTime[v]\<close> of a node \<open>v\<close> whose
  visit has just returned, which is a number.)
\<close>

definition js_min :: "nat option \<Rightarrow> nat option \<Rightarrow> nat option" where
  "js_min a b = (case (a, b) of (Some m, Some n) \<Rightarrow> Some (min m n) | _ \<Rightarrow> None)"

definition js_ge :: "nat option \<Rightarrow> nat option \<Rightarrow> bool" where
  "js_ge a b = (case (a, b) of (Some m, Some n) \<Rightarrow> m \<ge> n | _ \<Rightarrow> False)"

definition js_gt :: "nat option \<Rightarrow> nat option \<Rightarrow> bool" where
  "js_gt a b = (case (a, b) of (Some m, Some n) \<Rightarrow> m > n | _ \<Rightarrow> False)"

text \<open>
  The head of \<^verbatim>\<open>dfsVisit\<close>: \<^verbatim>\<open>visited[u] = true; time += 1; discoveryTime[u] = time;
  lowTime[u] = time\<close>.
\<close>

definition enter :: "string \<Rightarrow> dfs_state \<Rightarrow> dfs_state" where
  "enter u s =
     s\<lparr>visited := store (visited s) u True,
       time := time s + 1,
       discoveryTime := store (discoveryTime s) u (time s + 1),
       lowTime := store (lowTime s) u (time s + 1)\<rparr>"

text \<open>
  What follows the recursive call for a child \<open>v\<close> of \<open>u\<close>: the update of
  \<^verbatim>\<open>lowTime[u]\<close>, the articulation-point test and the bridge test with its
  \<^verbatim>\<open>activeEdges.find\<close>.
\<close>

definition afterChild ::
  "edge list \<Rightarrow> string \<Rightarrow> bool \<Rightarrow> string \<Rightarrow> event list \<times> dfs_state \<Rightarrow> event list \<times> dfs_state" where
  "afterChild activeEdges u isRoot v rs =
     (case rs of (res, s0) \<Rightarrow>
      let s1 = s0\<lparr>lowTime := store_number (lowTime s0) u (js_min (lowTime s0 u) (lowTime s0 v))\<rparr>;
          (res2, s2) =
            (if \<not> isRoot \<and> js_ge (lowTime s1 v) (discoveryTime s1 u)
             then (res @ [FoundArticulation u],
                   s1\<lparr>foundArticulationPoints := insert u (foundArticulationPoints s1)\<rparr>)
             else (res, s1))
      in if js_gt (lowTime s2 v) (discoveryTime s2 u)
         then (res2 @ [FoundBridge u v],
               case find (edge_matches u v) activeEdges of
                 Some bridgeEdge \<Rightarrow> s2\<lparr>foundBridges := foundBridges s2 @ [bridgeEdge]\<rparr>
               | None \<Rightarrow> s2)
         else (res2, s2))"

text \<open>
  \<^verbatim>\<open>dfsVisit\<close> and its loop \<^verbatim>\<open>for (const v of adjList[u])\<close>. The recursion is nested (the
  loop goes on in the state the recursive call returns), so the model counts the depth
  down from a bound, \<open>None\<close> meaning that the bound was too small; \<open>runDFS_returns\<close> below
  shows that the bound used by \<open>runDFS\<close> is never too small. The loop carries the local
  log \<^verbatim>\<open>result\<close> and \<^verbatim>\<open>childCount\<close>.
\<close>

fun dfsVisit ::
  "nat \<Rightarrow> adjlist \<Rightarrow> edge list \<Rightarrow> string \<Rightarrow> bool \<Rightarrow> dfs_state
     \<Rightarrow> (error + event list \<times> dfs_state) option"
and dfsFor ::
  "nat \<Rightarrow> adjlist \<Rightarrow> edge list \<Rightarrow> string \<Rightarrow> bool \<Rightarrow> string list
     \<Rightarrow> event list \<Rightarrow> nat \<Rightarrow> dfs_state \<Rightarrow> (error + event list \<times> nat \<times> dfs_state) option"
where
  "dfsVisit 0 adjList activeEdges u isRoot s = None"
| "dfsVisit (Suc fuel) adjList activeEdges u isRoot s =
     (case adj_entry adjList u of
        Inl err \<Rightarrow> Some (Inl err)
      | Inr ns \<Rightarrow>
          (case dfsFor fuel adjList activeEdges u isRoot ns [Visiting u] 0 (enter u s) of
             None \<Rightarrow> None
           | Some (Inl err) \<Rightarrow> Some (Inl err)
           | Some (Inr (res, childCount, s1)) \<Rightarrow>
               if isRoot \<and> childCount > 1
               then Some (Inr (res @ [RootArticulation u],
                      s1\<lparr>foundArticulationPoints := insert u (foundArticulationPoints s1)\<rparr>))
               else Some (Inr (res, s1))))"
| "dfsFor fuel adjList activeEdges u isRoot [] res childCount s = Some (Inr (res, childCount, s))"
| "dfsFor fuel adjList activeEdges u isRoot (v # rest) res childCount s =
     (if \<not> is_visited (visited s) v
      then (case dfsVisit fuel adjList activeEdges v False (s\<lparr>parent := store (parent s) v u\<rparr>) of
              None \<Rightarrow> None
            | Some (Inl err) \<Rightarrow> Some (Inl err)
            | Some (Inr (childResults, s1)) \<Rightarrow>
                (case afterChild activeEdges u isRoot v (res @ [Exploring u v] @ childResults, s1) of
                   (res2, s2) \<Rightarrow>
                     dfsFor fuel adjList activeEdges u isRoot rest res2 (childCount + 1) s2))
      else if parent s u \<noteq> Some v
      then dfsFor fuel adjList activeEdges u isRoot rest (res @ [BackEdge u v]) childCount
             (s\<lparr>lowTime := store_number (lowTime s) u (js_min (lowTime s u) (discoveryTime s v))\<rparr>)
      else dfsFor fuel adjList activeEdges u isRoot rest res childCount s)"

definition dfs_init :: dfs_state where
  "dfs_init =
     \<lparr>visited = Map.empty, discoveryTime = Map.empty, lowTime = Map.empty, parent = Map.empty,
      foundBridges = [], foundArticulationPoints = {}, time = 0\<rparr>"

text \<open>
  \<^verbatim>\<open>runDFS\<close>: adjacency lists, the traversal from \<^verbatim>\<open>graph.nodes[0].id\<close> (a
  \<^verbatim>\<open>TypeError\<close> on an empty node list), then the annotated graph and the state updates.
\<close>

definition runDFS :: "sim_state \<Rightarrow> (error + sim_state) option" where
  "runDFS st =
     (let g = graph st; activeEdges = filter isActive (edges g) in
      case buildAdjList g of
        Inl err \<Rightarrow> Some (Inl err)
      | Inr adjList \<Rightarrow>
          (case nodes g of
             [] \<Rightarrow> Some (Inl TypeError)
           | startNode # _ \<Rightarrow>
               (case dfsVisit (Suc (length (nodes g))) adjList activeEdges (node_id startNode) True
                       dfs_init of
                  None \<Rightarrow> None
                | Some (Inl err) \<Rightarrow> Some (Inl err)
                | Some (Inr (dfsResults, s)) \<Rightarrow>
                    (let updatedEdges =
                           map (\<lambda>e. e\<lparr>isBridge := Some (list_ex (edge_matches (source e) (target e))
                                                            (foundBridges s))\<rparr>) (edges g);
                         updatedNodes =
                           map (\<lambda>n. n\<lparr>isArticulationPoint :=
                                        Some (node_id n \<in> foundArticulationPoints s)\<rparr>) (nodes g)
                     in Some (Inr (st\<lparr>path := [],
                                      algorithmResult := dfsResults,
                                      graph := \<lparr>nodes = updatedNodes, edges = updatedEdges\<rparr>,
                                      bridges := foundBridges s,
                                      articulationPoints :=
                                        filter (\<lambda>n. isArticulationPoint n = Some True) updatedNodes\<rparr>))))))"

subsection \<open>The depth bound suffices\<close>

text \<open>
  The nodes still to visit: keys of the adjacency list whose \<^verbatim>\<open>visited\<close> entry is falsy.
  Each recursive call is made for one of them and marks it, so a depth of one more than
  the number of nodes is never exceeded.
\<close>

lemma visited_afterChild:
  "afterChild ae u r v (res, s) = (res2, s2) \<Longrightarrow> visited s2 = visited s"
  by (auto simp: afterChild_def Let_def split: option.splits prod.splits if_splits)

definition pending :: "adjlist \<Rightarrow> dfs_state \<Rightarrow> string set" where
  "pending adj s = keys adj - visited_set (visited s)"

lemma finite_pending: "finite (pending adj s)"
  by (simp add: pending_def keys_def)

lemma pending_mono:
  "visited_set (visited s) \<subseteq> visited_set (visited s') \<Longrightarrow> card (pending adj s') \<le> card (pending adj s)"
  by (intro card_mono finite_pending) (auto simp: pending_def)

lemma pending_enter: "pending adj (enter u s) = pending adj s - {u}"
  by (auto simp: pending_def enter_def visited_set_store)

lemma dfs_fuel:
  "(\<forall>a. nbrs adj a \<subseteq> keys adj) \<Longrightarrow> u \<in> keys adj \<Longrightarrow> card (pending adj s - {u}) < fuel \<Longrightarrow>
     \<exists>res s'. dfsVisit fuel adj ae u isRoot s = Some (Inr (res, s')) \<and>
              visited_set (visited s) \<subseteq> visited_set (visited s')"
  "(\<forall>a. nbrs adj a \<subseteq> keys adj) \<Longrightarrow> set vs \<subseteq> keys adj \<Longrightarrow> card (pending adj s) \<le> fuel \<Longrightarrow>
     \<exists>res' cc' s'. dfsFor fuel adj ae u isRoot vs res cc s = Some (Inr (res', cc', s')) \<and>
              visited_set (visited s) \<subseteq> visited_set (visited s')"
proof (induction fuel adj ae u isRoot s and fuel adj ae u isRoot vs res cc s
       rule: dfsVisit_dfsFor.induct)
  case (1 adj ae u isRoot s)
  then show ?case by simp
next
  case (2 fuel adj ae u isRoot s)
  from adj_entry_keys [OF "2.prems"(2)] obtain ns where
    ns: "map_of adj u = Some ns" and entry: "adj_entry adj u = Inr ns"
    by blast
  have sub: "set ns \<subseteq> keys adj"
    using "2.prems"(1) map_of_nbrs [OF ns] by auto
  have c: "card (pending adj (enter u s)) \<le> fuel"
    using "2.prems"(3) by (simp add: pending_enter)
  from "2.IH" [OF entry "2.prems"(1) sub c] obtain res cc s1 where
    r: "dfsFor fuel adj ae u isRoot ns [Visiting u] 0 (enter u s) = Some (Inr (res, cc, s1))"
    and m: "visited_set (visited (enter u s)) \<subseteq> visited_set (visited s1)"
    by blast
  have "visited_set (visited s) \<subseteq> visited_set (visited (enter u s))"
    by (auto simp: enter_def visited_set_store)
  with r m entry show ?case by auto
next
  case (3 fuel adj ae u isRoot res cc s)
  then show ?case by simp
next
  case (4 fuel adj ae u isRoot v rest res cc s)
  have rest: "set rest \<subseteq> keys adj" and v: "v \<in> keys adj"
    using "4.prems"(2) by auto
  show ?case
  proof (cases "is_visited (visited s) v")
    case True
    show ?thesis
    proof (cases "parent s u = Some v")
      case same: True
      from "4.IH"(4) [OF _ _ "4.prems"(1) rest "4.prems"(3)] True same
      show ?thesis by simp
    next
      case False
      let ?s = "s\<lparr>lowTime := store_number (lowTime s) u (js_min (lowTime s u) (discoveryTime s v))\<rparr>"
      have "card (pending adj ?s) \<le> fuel"
        using "4.prems"(3) by (simp add: pending_def)
      from "4.IH"(3) [OF _ False "4.prems"(1) rest this] True False
      show ?thesis by simp
    qed
  next
    case False
    let ?s = "s\<lparr>parent := store (parent s) v u\<rparr>"
    have same: "pending adj ?s = pending adj s"
      by (simp add: pending_def)
    have "v \<in> pending adj s"
      using v False by (simp add: pending_def visited_set_def)
    from card_Diff1_less [OF finite_pending this] "4.prems"(3)
    have pc: "card (pending adj ?s - {v}) < fuel"
      by (simp add: same)
    from "4.IH"(1) [OF False "4.prems"(1) v pc] obtain childResults s1 where
      child: "dfsVisit fuel adj ae v False ?s = Some (Inr (childResults, s1))"
      and m1: "visited_set (visited ?s) \<subseteq> visited_set (visited s1)"
      by blast
    obtain res2 s2 where ac: "afterChild ae u isRoot v (res @ [Exploring u v] @ childResults, s1) = (res2, s2)"
      by force
    have v2: "visited s2 = visited s1"
      by (rule visited_afterChild [OF ac])
    have "card (pending adj s2) \<le> card (pending adj s)"
      using m1 by (intro pending_mono) (simp add: v2)
    with "4.prems"(3) have c2: "card (pending adj s2) \<le> fuel" by simp
    from "4.IH"(2) [OF False child refl refl ac [symmetric] "4.prems"(1) rest c2]
    obtain res' cc' s' where
      "dfsFor fuel adj ae u isRoot rest res2 (cc + 1) s2 = Some (Inr (res', cc', s'))"
      "visited_set (visited s2) \<subseteq> visited_set (visited s')"
      by blast
    with False child ac m1 v2 show ?thesis by auto
  qed
qed

lemma dfsVisit_start:
  assumes adj: "buildAdjList g = Inr adj" and ns: "nodes g = n0 # rest"
  shows "\<exists>res s. dfsVisit (Suc (length (nodes g))) adj ae (node_id n0) True dfs_init = Some (Inr (res, s))"
proof -
  have k: "keys adj = node_id ` set (nodes g)"
    using buildAdjList_Inr(1) [OF adj] by (simp add: node_ids_def)
  have "card (pending adj dfs_init - {node_id n0}) \<le> card (keys adj)"
    by (intro card_mono) (auto simp: pending_def keys_def)
  also have "\<dots> \<le> length (nodes g)"
    unfolding k by (metis card_image_le card_length le_trans List.finite_set)
  finally have c: "card (pending adj dfs_init - {node_id n0}) < Suc (length (nodes g))"
    by simp
  have "node_id n0 \<in> keys adj"
    using k ns by simp
  from dfs_fuel(1) [OF closed_adjList [OF adj] this c] show ?thesis by blast
qed

lemma runDFS_returns: "\<exists>r. runDFS st = Some r"
proof (cases "buildAdjList (graph st)")
  case (Inl err)
  then show ?thesis by (simp add: runDFS_def)
next
  case (Inr adj)
  show ?thesis
  proof (cases "nodes (graph st)")
    case Nil
    with Inr show ?thesis by (simp add: runDFS_def)
  next
    case (Cons n0 rest)
    from dfsVisit_start [OF Inr Cons, of "filter isActive (edges (graph st))"] Inr Cons
    show ?thesis by (auto simp: runDFS_def Let_def)
  qed
qed

subsection \<open>Annotations do not influence the traversal\<close>

text \<open>
  The traversal reads the ids of the nodes and the endpoints of the active edges only.
  Replacing every edge \<open>e\<close> by \<open>f e\<close> with the same endpoints changes the result in one
  place: the edge objects collected in \<^verbatim>\<open>foundBridges\<close> are the images under \<open>f\<close>.
\<close>

definition relabel :: "(edge \<Rightarrow> edge) \<Rightarrow> dfs_state \<Rightarrow> dfs_state" where
  "relabel f s = s\<lparr>foundBridges := map f (foundBridges s)\<rparr>"

definition keeps_ends :: "(edge \<Rightarrow> edge) \<Rightarrow> bool" where
  "keeps_ends f \<longleftrightarrow> (\<forall>e. source (f e) = source e \<and> target (f e) = target e)"

lemma find_map_keeps_ends:
  "keeps_ends f \<Longrightarrow> find (edge_matches u v) (map f es) = map_option f (find (edge_matches u v) es)"
  by (induction es) (auto simp: keeps_ends_def edge_matches_def)

lemma relabel_simps [simp]:
  "visited (relabel f s) = visited s"
  "parent (relabel f s) = parent s"
  "lowTime (relabel f s) = lowTime s"
  "discoveryTime (relabel f s) = discoveryTime s"
  "time (relabel f s) = time s"
  "foundArticulationPoints (relabel f s) = foundArticulationPoints s"
  "foundBridges (relabel f s) = map f (foundBridges s)"
  by (simp_all add: relabel_def)

lemma relabel_commute:
  "enter u (relabel f s) = relabel f (enter u s)"
  "(relabel f s)\<lparr>parent := p\<rparr> = relabel f (s\<lparr>parent := p\<rparr>)"
  "(relabel f s)\<lparr>lowTime := l\<rparr> = relabel f (s\<lparr>lowTime := l\<rparr>)"
  "(relabel f s)\<lparr>foundArticulationPoints := a\<rparr> = relabel f (s\<lparr>foundArticulationPoints := a\<rparr>)"
  by (simp_all add: relabel_def enter_def)

lemma afterChild_relabel:
  assumes "keeps_ends f"
  shows "afterChild (map f ae) u r v (res, relabel f s)
           = (case afterChild ae u r v (res, s) of (res2, s2) \<Rightarrow> (res2, relabel f s2))"
  by (simp add: afterChild_def Let_def find_map_keeps_ends [OF assms] relabel_def
           split: option.splits)

definition relabel_out ::
  "(edge \<Rightarrow> edge) \<Rightarrow> (error + event list \<times> dfs_state) option \<Rightarrow> (error + event list \<times> dfs_state) option" where
  "relabel_out f r = map_option (map_sum id (\<lambda>(res, s). (res, relabel f s))) r"

definition relabel_out3 ::
  "(edge \<Rightarrow> edge) \<Rightarrow> (error + event list \<times> nat \<times> dfs_state) option
     \<Rightarrow> (error + event list \<times> nat \<times> dfs_state) option" where
  "relabel_out3 f r = map_option (map_sum id (\<lambda>(res, cc, s). (res, cc, relabel f s))) r"

lemma dfs_relabel:
  "keeps_ends f \<Longrightarrow>
     dfsVisit fuel adj (map f ae) u isRoot (relabel f s) = relabel_out f (dfsVisit fuel adj ae u isRoot s)"
  "keeps_ends f \<Longrightarrow>
     dfsFor fuel adj (map f ae) u isRoot vs res cc (relabel f s)
       = relabel_out3 f (dfsFor fuel adj ae u isRoot vs res cc s)"
proof (induction fuel adj ae u isRoot s and fuel adj ae u isRoot vs res cc s
       rule: dfsVisit_dfsFor.induct)
  case (1 adj ae u isRoot s)
  then show ?case by (simp add: relabel_out_def)
next
  case (2 fuel adj ae u isRoot s)
  show ?case
  proof (cases "adj_entry adj u")
    case (Inl err)
    then show ?thesis by (simp add: relabel_out_def)
  next
    case (Inr ns)
    from "2.IH" [OF Inr "2.prems"] Inr show ?thesis
      by (auto simp: relabel_out_def relabel_out3_def relabel_commute
               split: option.splits sum.splits)
  qed
next
  case (3 fuel adj ae u isRoot res cc s)
  then show ?case by (simp add: relabel_out3_def)
next
  case (4 fuel adj ae u isRoot v rest res cc s)
  show ?case
  proof (cases "is_visited (visited s) v")
    case True
    show ?thesis
    proof (cases "parent s u = Some v")
      case same: True
      from "4.IH"(4) [OF _ _ "4.prems"] True same show ?thesis by simp
    next
      case False
      from "4.IH"(3) [OF _ False "4.prems"] True False show ?thesis
        by (simp add: relabel_commute)
    qed
  next
    case False
    note ih1 = "4.IH"(1) [OF False "4.prems"]
    show ?thesis
    proof (cases "dfsVisit fuel adj ae v False (s\<lparr>parent := store (parent s) v u\<rparr>)")
      case None
      with ih1 False show ?thesis
        by (simp add: relabel_commute relabel_out_def relabel_out3_def)
    next
      case (Some r)
      show ?thesis
      proof (cases r)
        case (Inl err)
        with Some ih1 False show ?thesis
          by (simp add: relabel_commute relabel_out_def relabel_out3_def)
      next
        case (Inr b)
        obtain childResults s1 where b: "b = (childResults, s1)" by force
        obtain res2 s2 where
          ac: "afterChild ae u isRoot v (res @ [Exploring u v] @ childResults, s1) = (res2, s2)"
          by force
        from "4.IH"(2) [OF False Some Inr b [symmetric] ac [symmetric] "4.prems"]
        have "dfsFor fuel adj (map f ae) u isRoot rest res2 (cc + 1) (relabel f s2)
                = relabel_out3 f (dfsFor fuel adj ae u isRoot rest res2 (cc + 1) s2)" .
        with Some Inr b ac ih1 False afterChild_relabel [OF "4.prems"] show ?thesis
          by (simp add: relabel_commute relabel_out_def)
      qed
    qed
  qed
qed


lemma addEdge_keeps_ends: "keeps_ends f \<Longrightarrow> addEdge adj (f e) = addEdge adj e"
  by (auto simp: keeps_ends_def addEdge_def Let_def split: option.splits)

lemma addEdges_map_keeps_ends: "keeps_ends f \<Longrightarrow> addEdges adj (map f es) = addEdges adj es"
  by (induction es arbitrary: adj) (simp_all add: addEdge_keeps_ends split: sum.splits)

lemma emptyAdjList_map: "(\<forall>n::node. node_id (h n :: node) = node_id n) \<Longrightarrow> emptyAdjList (map h ns) = emptyAdjList ns"
  by (simp add: emptyAdjList_def fold_map comp_def)

lemma buildAdjList_annotated:
  assumes "keeps_ends f" and "\<forall>e. isActive (f e) = isActive e" and "\<forall>n::node. node_id (h n :: node) = node_id n"
  shows "buildAdjList \<lparr>nodes = map h (nodes g), edges = map f (edges g)\<rparr> = buildAdjList g"
  using assms
  by (simp add: buildAdjList_def emptyAdjList_map filter_map comp_def addEdges_map_keeps_ends)

definition edge_ref :: "edge \<Rightarrow> string \<times> string" where
  "edge_ref e = (source e, target e)"

definition annotate :: "graph \<Rightarrow> dfs_state \<Rightarrow> graph" where
  "annotate g s =
     \<lparr>nodes = map (\<lambda>n. n\<lparr>isArticulationPoint := Some (node_id n \<in> foundArticulationPoints s)\<rparr>)
                 (nodes g),
      edges = map (\<lambda>e. e\<lparr>isBridge := Some (list_ex (edge_matches (source e) (target e))
                                             (foundBridges s))\<rparr>) (edges g)\<rparr>"

lemma runDFS_eq:
  assumes "buildAdjList (graph st) = Inr adj" and "nodes (graph st) = n0 # rest"
    and "dfsVisit (Suc (length (nodes (graph st)))) adj (filter isActive (edges (graph st)))
           (node_id n0) True dfs_init = Some (Inr (res, s))"
  shows "runDFS st = Some (Inr (st\<lparr>path := [], algorithmResult := res,
            graph := annotate (graph st) s, bridges := foundBridges s,
            articulationPoints :=
              filter (\<lambda>n. isArticulationPoint n = Some True) (nodes (annotate (graph st) s))\<rparr>))"
  using assms by (simp add: runDFS_def Let_def annotate_def del: dfsVisit.simps)

lemma runDFS_Inr:
  assumes "runDFS st = Some (Inr st1)"
  obtains adj n0 rest res s where "buildAdjList (graph st) = Inr adj" and "nodes (graph st) = n0 # rest"
    and "dfsVisit (Suc (length (nodes (graph st)))) adj (filter isActive (edges (graph st)))
           (node_id n0) True dfs_init = Some (Inr (res, s))"
proof -
  from assms obtain adj where adj: "buildAdjList (graph st) = Inr adj"
    by (auto simp: runDFS_def Let_def split: sum.splits)
  from assms adj obtain n0 rest where ns: "nodes (graph st) = n0 # rest"
    by (auto simp: runDFS_def Let_def split: list.splits)
  from assms adj ns obtain res s where
    "dfsVisit (Suc (length (nodes (graph st)))) adj (filter isActive (edges (graph st)))
           (node_id n0) True dfs_init = Some (Inr (res, s))"
    by (auto simp: runDFS_def Let_def split: option.splits sum.splits simp del: dfsVisit.simps)
  with adj ns that show thesis by blast
qed

subsection \<open>The parent is never the target of a back edge\<close>

text \<open>
  A log is consistent with a state when every "Exploring a b" line has \<^verbatim>\<open>parent[b] = a\<close>
  and every "Back edge a b" line has \<^verbatim>\<open>parent[a]\<close> different from \<open>b\<close>. The parent of a
  visited node is never assigned again, so the log of a traversal stays consistent with
  the state as it grows. (A node whose \<^verbatim>\<open>visited\<close> entry is falsy is not named
  \<^verbatim>\<open>__proto__\<close>, so the assignment \<^verbatim>\<open>parent[v] = u\<close> that precedes its visit is stored.)
\<close>

definition log_ok :: "event list \<Rightarrow> dfs_state \<Rightarrow> bool" where
  "log_ok res s \<longleftrightarrow>
     (\<forall>a b. Exploring a b \<in> set res \<longrightarrow> parent s b = Some a \<and> is_visited (visited s) b) \<and>
     (\<forall>a b. BackEdge a b \<in> set res \<longrightarrow> is_visited (visited s) a \<and> parent s a \<noteq> Some b)"

definition keeps_parents :: "dfs_state \<Rightarrow> dfs_state \<Rightarrow> bool" where
  "keeps_parents s s' \<longleftrightarrow>
     (\<forall>w. is_visited (visited s) w \<longrightarrow> is_visited (visited s') w \<and> parent s' w = parent s w)"

lemma log_ok_keeps: "log_ok res s \<Longrightarrow> keeps_parents s s' \<Longrightarrow> log_ok res s'"
  by (auto simp: log_ok_def keeps_parents_def)

lemma keeps_parents_trans: "keeps_parents s s1 \<Longrightarrow> keeps_parents s1 s2 \<Longrightarrow> keeps_parents s s2"
  by (auto simp: keeps_parents_def)

lemma log_ok_append: "log_ok (xs @ ys) s \<longleftrightarrow> log_ok xs s \<and> log_ok ys s"
  by (auto simp: log_ok_def)

lemma afterChild_log:
  assumes "afterChild ae u r v (res, s) = (res2, s2)"
  shows "visited s2 = visited s \<and> parent s2 = parent s \<and>
         (\<forall>a b. (Exploring a b \<in> set res2 \<longleftrightarrow> Exploring a b \<in> set res) \<and>
                (BackEdge a b \<in> set res2 \<longleftrightarrow> BackEdge a b \<in> set res))"
  using assms
  by (auto simp: afterChild_def Let_def split: option.splits prod.splits if_splits)

lemma dfs_log:
  "dfsVisit fuel adj ae u isRoot s = Some (Inr (res, s')) \<Longrightarrow>
     log_ok res s' \<and> is_visited (visited s') u \<and> parent s' u = parent s u \<and> keeps_parents s s'"
  "dfsFor fuel adj ae u isRoot vs res0 cc s = Some (Inr (res1, cc1, s1)) \<Longrightarrow>
     is_visited (visited s) u \<Longrightarrow> log_ok res0 s \<Longrightarrow>
     log_ok res1 s1 \<and> keeps_parents s s1"
proof (induction fuel adj ae u isRoot s and fuel adj ae u isRoot vs res0 cc s
       arbitrary: res s' and res1 cc1 s1 rule: dfsVisit_dfsFor.induct)
  case (1 adj ae u isRoot s)
  then show ?case by simp
next
  case (2 fuel adj ae u isRoot s)
  from "2.prems" obtain ns where ns: "adj_entry adj u = Inr ns"
    by (auto split: sum.splits)
  from "2.prems" ns obtain r cc s2 where
    loop: "dfsFor fuel adj ae u isRoot ns [Visiting u] 0 (enter u s) = Some (Inr (r, cc, s2))"
    by (auto split: option.splits sum.splits)
  have "is_visited (visited (enter u s)) u" "log_ok [Visiting u] (enter u s)"
    by (simp_all add: enter_def is_visited_store log_ok_def)
  from "2.IH" [OF ns loop this] have ok: "log_ok r s2" "keeps_parents (enter u s) s2"
    by simp_all
  have k0: "keeps_parents s (enter u s)" "parent (enter u s) u = parent s u"
    by (auto simp: keeps_parents_def enter_def is_visited_store)
  have u2: "is_visited (visited s2) u \<and> parent s2 u = parent (enter u s) u"
    using ok(2) by (simp add: keeps_parents_def enter_def is_visited_store)
  have k: "keeps_parents s s2"
    by (rule keeps_parents_trans [OF k0(1) ok(2)])
  from "2.prems" ns loop have
    "(res, s') = (r @ [RootArticulation u], s2\<lparr>foundArticulationPoints := insert u (foundArticulationPoints s2)\<rparr>)
     \<or> (res, s') = (r, s2)"
    by (auto split: if_splits)
  with ok(1) u2 k k0(2) show ?case
    by (auto simp: log_ok_def keeps_parents_def)
next
  case (3 fuel adj ae u isRoot res cc s)
  then show ?case by (simp add: keeps_parents_def)
next
  case (4 fuel adj ae u isRoot v rest res cc s)
  show ?case
  proof (cases "is_visited (visited s) v")
    case True
    show ?thesis
    proof (cases "parent s u = Some v")
      case same: True
      from "4.prems"(1) True same have
        "dfsFor fuel adj ae u isRoot rest res cc s = Some (Inr (res1, cc1, s1))"
        by simp
      from "4.IH"(4) [OF _ _ this "4.prems"(2,3)] True same show ?thesis by simp
    next
      case False
      let ?s = "s\<lparr>lowTime := store_number (lowTime s) u (js_min (lowTime s u) (discoveryTime s v))\<rparr>"
      from "4.prems"(1) True False have
        run: "dfsFor fuel adj ae u isRoot rest (res @ [BackEdge u v]) cc ?s = Some (Inr (res1, cc1, s1))"
        by simp
      have "is_visited (visited ?s) u" "log_ok (res @ [BackEdge u v]) ?s"
        using "4.prems"(2,3) False by (auto simp: log_ok_def)
      from "4.IH"(3) [OF _ False run this] True have "log_ok res1 s1" "keeps_parents ?s s1"
        by simp_all
      then show ?thesis
        by (simp add: keeps_parents_def)
    qed
  next
    case False
    let ?s = "s\<lparr>parent := store (parent s) v u\<rparr>"
    from "4.prems"(1) False obtain childResults s2 where
      child: "dfsVisit fuel adj ae v False ?s = Some (Inr (childResults, s2))"
      by (auto split: option.splits sum.splits)
    obtain res3 s3 where
      ac: "afterChild ae u isRoot v (res @ [Exploring u v] @ childResults, s2) = (res3, s3)"
      by force
    from "4.prems"(1) False child ac have
      run: "dfsFor fuel adj ae u isRoot rest res3 (cc + 1) s3 = Some (Inr (res1, cc1, s1))"
      by simp
    from False have pv: "\<not> inherited v"
      by (simp add: is_visited_def)
    from "4.IH"(1) [OF False child] have c:
      "log_ok childResults s2" "is_visited (visited s2) v" "parent s2 v = Some u" "keeps_parents ?s s2"
      by (simp_all add: store_plain [OF pv])
    have k1: "keeps_parents s ?s"
      using False by (auto simp: keeps_parents_def store_plain [OF pv])
    have k2: "keeps_parents s s2"
      by (rule keeps_parents_trans [OF k1 c(4)])
    have "log_ok res s2"
      by (rule log_ok_keeps [OF "4.prems"(3) k2])
    moreover have "log_ok [Exploring u v] s2"
      using c(2,3) by (simp add: log_ok_def)
    ultimately have l2: "log_ok (res @ [Exploring u v] @ childResults) s2"
      using c(1) unfolding log_ok_append by simp
    note a = afterChild_log [OF ac]
    from l2 a have l3: "log_ok res3 s3"
      by (simp add: log_ok_def)
    from k2 a have k3: "keeps_parents s s3"
      by (simp add: keeps_parents_def)
    with "4.prems"(2) have u3: "is_visited (visited s3) u"
      by (simp add: keeps_parents_def)
    from "4.IH"(2) [OF False child refl refl ac [symmetric] run u3 l3]
    have "log_ok res1 s1" "keeps_parents s3 s1"
      by simp_all
    with k3 show ?thesis
      by (auto intro: keeps_parents_trans)
  qed
qed

lemma no_back_edge_to_parent:
  assumes "runDFS st = Some (Inr st')" and "Exploring p u \<in> set (algorithmResult st')"
  shows "BackEdge u p \<notin> set (algorithmResult st')"
proof -
  from runDFS_Inr [OF assms(1)] obtain adj n0 rest res s where
    adj: "buildAdjList (graph st) = Inr adj" and ns: "nodes (graph st) = n0 # rest" and
    dfs: "dfsVisit (Suc (length (nodes (graph st)))) adj (filter isActive (edges (graph st)))
            (node_id n0) True dfs_init = Some (Inr (res, s))"
    by blast
  from assms(1) runDFS_eq [OF adj ns dfs] have "algorithmResult st' = res"
    by auto
  moreover from dfs_log(1) [OF dfs] have "log_ok res s"
    by simp
  ultimately show ?thesis
    using assms(2) by (auto simp: log_ok_def)
qed

subsection \<open>Example: the path A-B-C\<close>

definition path_graph :: graph where
  "path_graph =
     \<lparr>nodes = [site ''A'' Hub 0 0, site ''B'' City 10 0, site ''C'' City 20 0],
      edges = [link ''A'' ''B'' True, link ''B'' ''C'' True]\<rparr>"

lemma store_number_plain: "\<not> inherited k \<Longrightarrow> store_number m k v = m(k := v)"
  by (simp add: store_number_def not_inherited_proto)

lemmas dfs_eval =
  runDFS_def Let_def buildAdjList_def emptyAdjList_def addEdge_def adj_entry_def dfs_init_def
  enter_def afterChild_def js_min_def js_ge_def js_gt_def edge_matches_def
  is_visited_plain store_plain store_number_plain

lemmas plain_eval = inherited_def object_prototype_names_def

lemma path_concrete:
  "\<exists>st'. runDFS (initial_state path_graph) = Some (Inr st') \<and>
         bridges st' = [link ''B'' ''C'' True, link ''A'' ''B'' True] \<and>
         map node_id (articulationPoints st') = [''B''] \<and>
         map isBridge (edges (graph st')) = [Some True, Some True] \<and>
         map isArticulationPoint (nodes (graph st')) = [Some False, Some True, Some False]"
  by (simp add: dfs_eval plain_eval path_graph_def initial_state_def link_def site_def)

subsection \<open>Example: a node named like a member of \<^verbatim>\<open>Object.prototype\<close>\<close>

text \<open>
  A node named \<^verbatim>\<open>constructor\<close> has a truthy \<^verbatim>\<open>visited\<close> entry from the start, so the
  traversal never enters it: each edge to it is logged as a back edge, and neither a
  bridge nor an articulation point is reported, on the path A-constructor-C as on two
  parallel links A-constructor.
\<close>

lemmas member_eval =
  runDFS_def Let_def buildAdjList_def emptyAdjList_def addEdge_def adj_entry_def dfs_init_def
  enter_def afterChild_def js_min_def js_ge_def js_gt_def edge_matches_def
  is_visited_def store_def store_number_def inherited_def object_prototype_names_def

lemma runDFS_inherited_middle:
  "runDFS (initial_state
       \<lparr>nodes = [site ''A'' Hub 0 0, site ''constructor'' City 10 0, site ''C'' City 20 0],
        edges = [link ''A'' ''constructor'' True, link ''constructor'' ''C'' True]\<rparr>) =
     Some (Inr ((initial_state
       \<lparr>nodes = [site ''A'' Hub 0 0, site ''constructor'' City 10 0, site ''C'' City 20 0],
        edges = [link ''A'' ''constructor'' True, link ''constructor'' ''C'' True]\<rparr>)
       \<lparr>graph := \<lparr>nodes = [(site ''A'' Hub 0 0)\<lparr>isArticulationPoint := Some False\<rparr>,
                          (site ''constructor'' City 10 0)\<lparr>isArticulationPoint := Some False\<rparr>,
                          (site ''C'' City 20 0)\<lparr>isArticulationPoint := Some False\<rparr>],
                 edges = [(link ''A'' ''constructor'' True)\<lparr>isBridge := Some False\<rparr>,
                          (link ''constructor'' ''C'' True)\<lparr>isBridge := Some False\<rparr>]\<rparr>,
        algorithmResult := [Visiting ''A'', BackEdge ''A'' ''constructor''],
        bridges := []\<rparr>))"
  by (simp add: member_eval initial_state_def link_def site_def)

lemma runDFS_inherited_parallel:
  "runDFS (initial_state
       \<lparr>nodes = [site ''A'' Hub 0 0, site ''constructor'' City 10 0],
        edges = [link ''A'' ''constructor'' True, link ''A'' ''constructor'' True]\<rparr>) =
     Some (Inr ((initial_state
       \<lparr>nodes = [site ''A'' Hub 0 0, site ''constructor'' City 10 0],
        edges = [link ''A'' ''constructor'' True, link ''A'' ''constructor'' True]\<rparr>)
       \<lparr>graph := \<lparr>nodes = [(site ''A'' Hub 0 0)\<lparr>isArticulationPoint := Some False\<rparr>,
                          (site ''constructor'' City 10 0)\<lparr>isArticulationPoint := Some False\<rparr>],
                 edges = [(link ''A'' ''constructor'' True)\<lparr>isBridge := Some False\<rparr>,
                          (link ''A'' ''constructor'' True)\<lparr>isBridge := Some False\<rparr>]\<rparr>,
        algorithmResult := [Visiting ''A'', BackEdge ''A'' ''constructor'',
                            BackEdge ''A'' ''constructor''],
        bridges := []\<rparr>))"
  by (simp add: member_eval initial_state_def link_def site_def)

section \<open>Properties of the critical-structure analysis\<close>

text \<open>
  C2: for a path graph a-b-c (three nodes with distinct ids in any order of the node
  list, none of the ids a name of a member of \<^verbatim>\<open>Object.prototype\<close>, two active edges in
  any order and orientation), the analysis reports both edges as bridges and the middle
  node \<open>b\<close> as the only articulation point.
\<close>

theorem path_graph_analysis:
  assumes "distinct [a, b, c]"
    and "\<not> inherited a" and "\<not> inherited b" and "\<not> inherited c"
    and "node_id na = a" and "node_id nb = b" and "node_id nc = c"
    and "isActive e1" and "isActive e2" and "edge_matches a b e1" and "edge_matches b c e2"
    and "ns \<in> {[na, nb, nc], [na, nc, nb], [nb, na, nc], [nb, nc, na], [nc, na, nb], [nc, nb, na]}"
    and "es \<in> {[e1, e2], [e2, e1]}"
    and "graph st = \<lparr>nodes = ns, edges = es\<rparr>"
  shows "\<exists>st'. runDFS st = Some (Inr st') \<and>
         set (bridges st') = {e1, e2} \<and>
         map node_id (articulationPoints st') = [b] \<and>
         (\<forall>e \<in> set (edges (graph st')). isBridge e = Some True) \<and>
         (\<forall>n \<in> set (nodes (graph st')). isArticulationPoint n = Some (node_id n = b))"
  using assms
  apply (simp add: dfs_eval)
  apply (elim disjE conjE)
  apply (simp_all add: dfs_eval insert_commute)
  done

theorem path_graph_analysis_witness:
  "\<exists>st'. runDFS (initial_state path_graph) = Some (Inr st') \<and>
         set (bridges st') = {link ''A'' ''B'' True, link ''B'' ''C'' True} \<and>
         map node_id (articulationPoints st') = [''B'']"
proof -
  have "\<exists>st'. runDFS (initial_state path_graph) = Some (Inr st') \<and>
         set (bridges st') = {link ''A'' ''B'' True, link ''B'' ''C'' True} \<and>
         map node_id (articulationPoints st') = [''B''] \<and>
         (\<forall>e \<in> set (edges (graph st')). isBridge e = Some True) \<and>
         (\<forall>n \<in> set (nodes (graph st')). isArticulationPoint n = Some (node_id n = ''B''))"
    by (rule path_graph_analysis [where na = "site ''A'' Hub 0 0" and nb = "site ''B'' City 10 0"
          and nc = "site ''C'' City 20 0" and ns = "nodes path_graph" and es = "edges path_graph"])
       (simp_all add: path_graph_def initial_state_def link_def site_def edge_matches_def
          plain_eval)
  then obtain st' where "runDFS (initial_state path_graph) = Some (Inr st')"
    "set (bridges st') = {link ''A'' ''B'' True, link ''B'' ''C'' True}"
    "map node_id (articulationPoints st') = [''B'']"
    by (elim exE conjE)
  then show ?thesis
    by (intro exI [of _ st'] conjI)
qed

text \<open>
  C9: the analysis is a function of the state, and it always returns. If a run succeeds,
  a second run on the state it produced (same nodes, same edges, same \<^verbatim>\<open>isActive\<close>
  flags; only the annotations \<^verbatim>\<open>isBridge\<close> and \<^verbatim>\<open>isArticulationPoint\<close> were written)
  succeeds too and yields the same bridges (as pairs of endpoints, in the same order),
  the same articulation points, the same annotated graph and the same log.
\<close>

theorem runDFS_twice:
  "(\<exists>r. runDFS st = Some r) \<and>
   (\<forall>st1. runDFS st = Some (Inr st1) \<longrightarrow>
      (\<exists>st2. runDFS st1 = Some (Inr st2) \<and>
             map edge_ref (bridges st2) = map edge_ref (bridges st1) \<and>
             articulationPoints st2 = articulationPoints st1 \<and>
             graph st2 = graph st1 \<and> algorithmResult st2 = algorithmResult st1))"
proof (intro conjI allI impI)
  show "\<exists>r. runDFS st = Some r" by (rule runDFS_returns)
next
  fix st1
  assume run: "runDFS st = Some (Inr st1)"
  let ?g = "graph st"
  let ?ae = "filter isActive (edges ?g)"
  from runDFS_Inr [OF run] obtain adj n0 rest res s where
    adj: "buildAdjList ?g = Inr adj" and ns: "nodes ?g = n0 # rest" and
    dfs: "dfsVisit (Suc (length (nodes ?g))) adj ?ae (node_id n0) True dfs_init = Some (Inr (res, s))"
    by blast
  define f :: "edge \<Rightarrow> edge"
    where "f = (\<lambda>e. e\<lparr>isBridge := Some (list_ex (edge_matches (source e) (target e)) (foundBridges s))\<rparr>)"
  define h :: "node \<Rightarrow> node"
    where "h = (\<lambda>n. n\<lparr>isArticulationPoint := Some (node_id n \<in> foundArticulationPoints s)\<rparr>)"
  have g1: "annotate ?g s = \<lparr>nodes = map h (nodes ?g), edges = map f (edges ?g)\<rparr>"
    by (simp add: annotate_def f_def h_def)
  have st1: "st1 = st\<lparr>path := [], algorithmResult := res, graph := annotate ?g s,
                      bridges := foundBridges s,
                      articulationPoints :=
                        filter (\<lambda>n. isArticulationPoint n = Some True) (nodes (annotate ?g s))\<rparr>"
    using run runDFS_eq [OF adj ns dfs] by simp
  have kf: "keeps_ends f" and af: "\<forall>e. isActive (f e) = isActive e"
    and ih: "\<forall>n. node_id (h n) = node_id n"
    by (simp_all add: keeps_ends_def f_def h_def)
  have gst1: "graph st1 = \<lparr>nodes = map h (nodes ?g), edges = map f (edges ?g)\<rparr>"
    by (simp add: st1 g1)
  have adj1: "buildAdjList (graph st1) = Inr adj"
    using buildAdjList_annotated [OF kf af ih, of ?g] adj by (simp add: gst1)
  have ns1: "nodes (graph st1) = h n0 # map h rest"
    by (simp add: gst1 ns)
  have ae1: "filter isActive (edges (graph st1)) = map f ?ae"
    using af by (simp add: gst1 filter_map comp_def)
  have init: "relabel f dfs_init = dfs_init"
    by (simp add: relabel_def dfs_init_def)
  have len: "length (nodes (graph st1)) = length (nodes ?g)"
    by (simp add: gst1)
  have dfs1: "dfsVisit (Suc (length (nodes (graph st1)))) adj (filter isActive (edges (graph st1)))
                (node_id (h n0)) True dfs_init = Some (Inr (res, relabel f s))"
    unfolding len ae1
    using dfs_relabel(1) [OF kf, of "Suc (length (nodes ?g))" adj ?ae "node_id n0" True dfs_init] dfs ih
    by (simp add: init relabel_out_def del: dfsVisit.simps)
  note run2 = runDFS_eq [OF adj1 ns1 dfs1]
  have ex: "list_ex (edge_matches (source (f e)) (target (f e))) (map f bs)
              = list_ex (edge_matches (source e) (target e)) bs" for e bs
    using kf by (induction bs) (auto simp: keeps_ends_def edge_matches_def)
  have ff: "(f e)\<lparr>isBridge := Some (list_ex (edge_matches (source (f e)) (target (f e)))
                                    (map f (foundBridges s)))\<rparr> = f e" for e
    unfolding ex by (simp add: f_def)
  have hh: "(h n)\<lparr>isArticulationPoint := Some (node_id (h n) \<in> foundArticulationPoints s)\<rparr> = h n" for n
    by (simp add: h_def)
  have again: "annotate (graph st1) (relabel f s) = graph st1"
    by (simp add: annotate_def gst1 ff hh comp_def)
  have refs: "edge_ref (f e) = edge_ref e" for e
    using kf by (simp add: keeps_ends_def edge_ref_def)
  show "\<exists>st2. runDFS st1 = Some (Inr st2) \<and>
             map edge_ref (bridges st2) = map edge_ref (bridges st1) \<and>
             articulationPoints st2 = articulationPoints st1 \<and>
             graph st2 = graph st1 \<and> algorithmResult st2 = algorithmResult st1"
    unfolding run2 again
    by (simp add: refs) (simp add: st1 refs)
qed

theorem runDFS_twice_witness:
  "\<exists>st1 st2. runDFS (initial_state path_graph) = Some (Inr st1) \<and>
     runDFS st1 = Some (Inr st2) \<and>
     map edge_ref (bridges st2) = [(''B'', ''C''), (''A'', ''B'')] \<and>
     map node_id (articulationPoints st2) = [''B''] \<and> graph st2 = graph st1"
proof -
  from path_concrete obtain st1 where
    st1: "runDFS (initial_state path_graph) = Some (Inr st1)"
      "bridges st1 = [link ''B'' ''C'' True, link ''A'' ''B'' True]"
      "map node_id (articulationPoints st1) = [''B'']"
    by (elim exE conjE)
  from runDFS_twice [of "initial_state path_graph"] st1(1) obtain st2 where
    st2: "runDFS st1 = Some (Inr st2)" "map edge_ref (bridges st2) = map edge_ref (bridges st1)"
    "articulationPoints st2 = articulationPoints st1" "graph st2 = graph st1"
    by blast
  show ?thesis
    by (intro exI [of _ st1] exI [of _ st2]) (simp add: st1 st2 edge_ref_def link_def)
qed

text \<open>
  C1, as stated, fails: the loop skips a visited neighbour whenever it equals
  \<^verbatim>\<open>parent[u]\<close>, so every copy of the parent in the adjacency list is skipped, not only
  one. With two parallel active edges between A and B, the visit of B logs no back edge
  and the link A-B is reported as a bridge.
\<close>

theorem runDFS_parallel_counterexample:
  "runDFS (initial_state parallel_graph) =
     Some (Inr ((initial_state parallel_graph)
       \<lparr>graph := \<lparr>nodes = [(site ''A'' Hub 0 0)\<lparr>isArticulationPoint := Some False\<rparr>,
                          (site ''B'' City 10 0)\<lparr>isArticulationPoint := Some False\<rparr>],
                 edges = [(link ''A'' ''B'' True)\<lparr>isBridge := Some True\<rparr>,
                          (link ''A'' ''B'' True)\<lparr>isBridge := Some True\<rparr>]\<rparr>,
        algorithmResult := [Visiting ''A'', Exploring ''A'' ''B'', Visiting ''B'',
                            FoundBridge ''A'' ''B'', BackEdge ''A'' ''B''],
        bridges := [link ''A'' ''B'' True]\<rparr>))"
  by (simp add: dfs_eval plain_eval parallel_graph_def initial_state_def link_def site_def)

text \<open>
  Two nodes joined by any number of parallel active edges, in either orientation, the
  first not named \<^verbatim>\<open>__proto__\<close> and the second no name of a member of
  \<^verbatim>\<open>Object.prototype\<close>: the visit of the second node logs nothing but the visit itself,
  and the link is reported as a bridge; the first of the edges is collected and all of
  them are flagged.
\<close>

lemma dfsFor_skip_parent:
  "is_visited (visited s) v \<Longrightarrow> parent s u = Some v \<Longrightarrow>
     dfsFor fuel adj ae u isRoot (replicate k v) res cc s = Some (Inr (res, cc, s))"
  by (induction k) simp_all

lemma dfsFor_back_edges:
  assumes "is_visited (visited s) v" and "parent s u \<noteq> Some v"
    and "lowTime s u = Some l" and "discoveryTime s v = Some d" and "l \<le> d"
  shows "dfsFor fuel adj ae u isRoot (replicate k v) res cc s
           = Some (Inr (res @ replicate k (BackEdge u v), cc, s))"
proof (induction k arbitrary: res)
  case 0
  show ?case by simp
next
  case (Suc k)
  have "s\<lparr>lowTime := store_number (lowTime s) u (js_min (lowTime s u) (discoveryTime s v))\<rparr> = s"
    using assms by (simp add: js_min_def min_def fun_upd_idem store_number_def)
  with Suc [of "res @ [BackEdge u v]"] assms show ?case
    by (simp add: replicate_app_Cons_same)
qed

lemma addEdges_parallel:
  assumes "a \<noteq> b" and "\<forall>e \<in> set es. edge_matches a b e"
    and "map_of adj a = Some xs" and "map_of adj b = Some ys"
  shows "\<exists>adj1. addEdges adj es = Inr adj1 \<and>
           map_of adj1 a = Some (xs @ replicate (length es) b) \<and>
           map_of adj1 b = Some (ys @ replicate (length es) a)"
  using assms
proof (induction es arbitrary: adj xs ys)
  case Nil
  then show ?case by simp
next
  case (Cons e es)
  from Cons.prems obtain adj2 where e: "addEdge adj e = Inr adj2"
    and a2: "map_of adj2 a = Some (xs @ [b])" and b2: "map_of adj2 b = Some (ys @ [a])"
    by (auto simp: addEdge_def Let_def edge_matches_def AList.update_conv')
  from Cons.IH [OF Cons.prems(1) _ a2 b2] Cons.prems(2) e show ?case
    by (auto simp: replicate_app_Cons_same)
qed

lemma find_hd:
  "es \<noteq> [] \<Longrightarrow> \<forall>e \<in> set es. P e \<Longrightarrow> find P es = Some (hd es)"
  by (cases es) auto

lemma parallel_link_bridge:
  assumes ab: "a \<noteq> b" and pa: "a \<noteq> ''__proto__''" and pb: "\<not> inherited b"
    and na: "node_id na = a" and nb: "node_id nb = b"
    and ne: "es \<noteq> []" and es: "\<forall>e \<in> set es. isActive e \<and> edge_matches a b e"
    and g: "graph st = \<lparr>nodes = [na, nb], edges = es\<rparr>"
  shows "\<exists>st'. runDFS st = Some (Inr st') \<and>
           bridges st' = [hd es] \<and> articulationPoints st' = [] \<and>
           algorithmResult st' =
             [Visiting a, Exploring a b, Visiting b, FoundBridge a b]
               @ replicate (length es - 1) (BackEdge a b) \<and>
           (\<forall>e \<in> set (edges (graph st')). isBridge e = Some True)"
proof -
  obtain k where k: "length es = Suc k"
    using ne by (cases es) auto
  have act: "filter isActive es = es"
    using es by (simp add: filter_id_conv)
  have m: "\<forall>e \<in> set es. edge_matches a b e"
    using es by simp
  have e0: "map_of (emptyAdjList [na, nb]) a = Some []" "map_of (emptyAdjList [na, nb]) b = Some []"
    using ab na nb by (simp_all add: emptyAdjList_def)
  from addEdges_parallel [OF ab m e0] obtain adj where
    adj: "buildAdjList (graph st) = Inr adj"
    and map_a: "map_of adj a = Some (b # replicate k b)"
    and map_b: "map_of adj b = Some (replicate (Suc k) a)"
    by (auto simp: buildAdjList_def g act k simp del: replicate_Suc) (simp add: k)
  note adj_a = adj_entry_key [OF map_a] and adj_b = adj_entry_key [OF map_b]
  note stores = store_other [OF pa] store_plain [OF pb] store_number_plain [OF pb]
  have sn: "store_number m a v = m(a := v)" for m v
    using pa by (simp add: store_number_def)
  define s0 where "s0 = (enter a dfs_init)\<lparr>parent := store (parent (enter a dfs_init)) b a\<rparr>"
  define s1 where "s1 = enter b s0"
  have f0: "visited s0 = [a \<mapsto> True]" "parent s0 = [b \<mapsto> a]" "lowTime s0 = [a \<mapsto> 1]"
    "discoveryTime s0 = [a \<mapsto> 1]" "time s0 = 1" "foundBridges s0 = []"
    "foundArticulationPoints s0 = {}"
    by (simp_all add: s0_def enter_def dfs_init_def stores)
  have f1: "visited s1 a = Some True" "visited s1 b = Some True" "parent s1 = [b \<mapsto> a]"
    "lowTime s1 a = Some 1" "lowTime s1 b = Some 2" "discoveryTime s1 a = Some 1"
    "discoveryTime s1 b = Some 2" "foundBridges s1 = []" "foundArticulationPoints s1 = {}"
    using ab by (simp_all add: s1_def enter_def f0 stores)
  have inner: "dfsFor (Suc 0) adj es b False (replicate (Suc k) a) [Visiting b] 0 s1
                 = Some (Inr ([Visiting b], 0, s1))"
    by (rule dfsFor_skip_parent) (simp_all add: f1 is_visited_def)
  have child: "dfsVisit (Suc (Suc 0)) adj es b False s0 = Some (Inr ([Visiting b], s1))"
    using adj_b inner by (simp add: s1_def del: dfsFor.simps replicate_Suc)
  have fnd: "find (edge_matches a b) es = Some (hd es)"
    by (rule find_hd [OF ne m])
  obtain s2 where
    ac: "afterChild es a True b ([Visiting a] @ [Exploring a b] @ [Visiting b], s1)
           = ([Visiting a, Exploring a b, Visiting b, FoundBridge a b], s2)"
    and s2: "foundBridges s2 = [hd es]" "foundArticulationPoints s2 = {}"
      "is_visited (visited s2) b" "parent s2 a \<noteq> Some b"
      "lowTime s2 a = Some 1" "discoveryTime s2 b = Some 2"
    using ab
    by (simp add: afterChild_def fnd f1 sn js_min_def js_gt_def is_visited_def)
  have bedges: "dfsFor (Suc (Suc 0)) adj es a True (replicate k b)
                [Visiting a, Exploring a b, Visiting b, FoundBridge a b] (Suc 0) s2
              = Some (Inr ([Visiting a, Exploring a b, Visiting b, FoundBridge a b]
                            @ replicate k (BackEdge a b), Suc 0, s2))"
    by (rule dfsFor_back_edges [OF s2(3,4,5,6)]) simp
  have nv: "\<not> is_visited (visited (enter a dfs_init)) b"
    using ab pb by (simp add: is_visited_def enter_def dfs_init_def stores)
  have loop: "dfsFor (Suc (Suc 0)) adj es a True (b # replicate k b) [Visiting a] 0 (enter a dfs_init)
              = Some (Inr ([Visiting a, Exploring a b, Visiting b, FoundBridge a b]
                            @ replicate k (BackEdge a b), Suc 0, s2))"
    using nv child ac bedges
    by (simp add: s0_def del: dfsVisit.simps)
  have dfs: "dfsVisit (Suc (length (nodes (graph st)))) adj (filter isActive (edges (graph st)))
               (node_id na) True dfs_init
             = Some (Inr ([Visiting a, Exploring a b, Visiting b, FoundBridge a b]
                            @ replicate k (BackEdge a b), s2))"
    using adj_a loop by (simp add: g act na del: dfsFor.simps)
  have ns: "nodes (graph st) = na # [nb]"
    by (simp add: g)
  have br: "list_ex (edge_matches (source e) (target e)) [hd es]" if "e \<in> set es" for e
  proof -
    from ne have "hd es \<in> set es" by simp
    with m have "edge_matches a b (hd es)" by blast
    moreover from that m have "edge_matches a b e" by blast
    ultimately show ?thesis
      by (auto simp: edge_matches_def)
  qed
  show ?thesis
    unfolding runDFS_eq [OF adj ns dfs]
    using br ab na nb s2(1,2)
    by (simp add: annotate_def g k)
qed

text \<open>
  C1 (amended): in every run, every occurrence of the parent in a node's adjacency list
  is skipped: no back edge is ever logged from a node \<open>u\<close> to the node \<open>p\<close> it was
  explored from, so parallel edges between \<open>u\<close> and \<open>p\<close> never lower
  \<^verbatim>\<open>lowTime[u]\<close>. In particular, for two nodes joined by parallel active edges (the
  first not named \<^verbatim>\<open>__proto__\<close>, the second no name of a member of \<^verbatim>\<open>Object.prototype\<close>)
  the link is reported as a bridge.
\<close>

theorem parent_copies_skipped:
  "(runDFS st = Some (Inr st') \<longrightarrow> Exploring p u \<in> set (algorithmResult st') \<longrightarrow>
      BackEdge u p \<notin> set (algorithmResult st')) \<and>
   (a \<noteq> b \<and> a \<noteq> ''__proto__'' \<and> \<not> inherited b \<and>
    node_id na = a \<and> node_id nb = b \<and> es \<noteq> [] \<and>
    (\<forall>e \<in> set es. isActive e \<and> edge_matches a b e) \<and>
    graph st0 = \<lparr>nodes = [na, nb], edges = es\<rparr> \<longrightarrow>
      (\<exists>st1. runDFS st0 = Some (Inr st1) \<and>
         bridges st1 = [hd es] \<and> articulationPoints st1 = [] \<and>
         algorithmResult st1 =
           [Visiting a, Exploring a b, Visiting b, FoundBridge a b]
             @ replicate (length es - 1) (BackEdge a b) \<and>
         (\<forall>e \<in> set (edges (graph st1)). isBridge e = Some True)))"
  using no_back_edge_to_parent [of st st' p u] parallel_link_bridge [of a b na nb es st0]
  by blast

theorem parent_copies_skipped_witness:
  "BackEdge ''B'' ''A'' \<notin> set [Visiting ''A'', Exploring ''A'' ''B'', Visiting ''B'',
                                 FoundBridge ''A'' ''B'', BackEdge ''A'' ''B''] \<and>
   (\<exists>st1. runDFS (initial_state parallel_graph) = Some (Inr st1) \<and>
          bridges st1 = [link ''A'' ''B'' True] \<and>
          algorithmResult st1 = [Visiting ''A'', Exploring ''A'' ''B'', Visiting ''B'',
                                 FoundBridge ''A'' ''B'', BackEdge ''A'' ''B''])"
proof -
  note inst = parent_copies_skipped [of "initial_state parallel_graph" _ "''A''" "''B''"
      "''A''" "''B''" "site ''A'' Hub 0 0" "site ''B'' City 10 0" "edges parallel_graph"
      "initial_state parallel_graph"]
  have pre: "''A'' \<noteq> ''B'' \<and> ''A'' \<noteq> ''__proto__'' \<and> \<not> inherited ''B'' \<and>
      node_id (site ''A'' Hub 0 0) = ''A'' \<and>
      node_id (site ''B'' City 10 0) = ''B'' \<and> edges parallel_graph \<noteq> [] \<and>
      (\<forall>e \<in> set (edges parallel_graph). isActive e \<and> edge_matches ''A'' ''B'' e) \<and>
      graph (initial_state parallel_graph)
        = \<lparr>nodes = [site ''A'' Hub 0 0, site ''B'' City 10 0], edges = edges parallel_graph\<rparr>"
    by (simp add: parallel_graph_def initial_state_def link_def site_def edge_matches_def
          plain_eval)
  from inst pre obtain st1 where st1: "runDFS (initial_state parallel_graph) = Some (Inr st1)"
    "bridges st1 = [hd (edges parallel_graph)]"
    "algorithmResult st1 =
       [Visiting ''A'', Exploring ''A'' ''B'', Visiting ''B'', FoundBridge ''A'' ''B'']
         @ replicate (length (edges parallel_graph) - 1) (BackEdge ''A'' ''B'')"
    by blast
  have log: "algorithmResult st1 = [Visiting ''A'', Exploring ''A'' ''B'', Visiting ''B'',
                                   FoundBridge ''A'' ''B'', BackEdge ''A'' ''B'']"
    using st1(3) by (simp add: parallel_graph_def)
  have "Exploring ''A'' ''B'' \<in> set (algorithmResult st1)"
    by (simp add: log)
  with parent_copies_skipped [of "initial_state parallel_graph" st1 "''A''" "''B''"] st1(1)
  have "BackEdge ''B'' ''A'' \<notin> set (algorithmResult st1)"
    by blast
  with st1 log show ?thesis
    by (intro conjI exI [of _ st1]) (simp_all add: parallel_graph_def)
qed

section \<open>Recovery planner\<close>

text \<open>\<^verbatim>\<open>Number.MAX_VALUE\<close>, the largest finite double.\<close>

definition MAX_VALUE :: real where
  "MAX_VALUE = (2 - 1 / 2 ^ 52) * 2 ^ 1023"

text \<open>
  \<^verbatim>\<open>graph.nodes.find((node) => node.type === "hub")?.id || graph.nodes[0].id\<close>: the
  id of the first hub unless there is none or that id is the empty string (which is
  falsy), else the id of the first node; reading \<^verbatim>\<open>graph.nodes[0].id\<close> of an empty
  node list throws.
\<close>

definition selectSource :: "graph \<Rightarrow> error + string" where
  "selectSource g =
     (let firstId = (case nodes g of [] \<Rightarrow> Inl TypeError | n # _ \<Rightarrow> Inr (node_id n)) in
      case find (\<lambda>n. kind n = Hub) (nodes g) of
        Some hub \<Rightarrow> if node_id hub \<noteq> [] then Inr (node_id hub) else firstId
      | None \<Rightarrow> firstId)"

text \<open>
  The traversal of \<^verbatim>\<open>recoverNetwork\<close>: the same loop as in \<^verbatim>\<open>runBFS\<close>, without target,
  predecessors and log.
\<close>

fun reachFor ::
  "string list \<Rightarrow> string list \<times> (string \<rightharpoonup> bool) \<Rightarrow> string list \<times> (string \<rightharpoonup> bool)" where
  "reachFor [] loc = loc"
| "reachFor (neighbor # rest) (queue, vis) =
     (if \<not> is_visited vis neighbor
      then reachFor rest (queue @ [neighbor], store vis neighbor True)
      else reachFor rest (queue, vis))"

lemma reachFor_effect:
  assumes "reachFor ns (q, vis) = (q', vis')"
  shows "\<exists>new. q' = q @ new \<and> distinct new \<and> set new \<inter> visited_set vis = {} \<and>
               visited_set vis' = visited_set vis \<union> set new \<and> set new \<subseteq> set ns \<and>
               set ns \<subseteq> visited_set vis' \<and> marked_set vis' = marked_set vis \<union> set new"
  using assms
proof (induction ns arbitrary: q vis)
  case Nil
  then show ?case by simp
next
  case (Cons n ns)
  show ?case
  proof (cases "is_visited vis n")
    case True
    with Cons.prems have "reachFor ns (q, vis) = (q', vis')" by simp
    from Cons.IH [OF this] True show ?thesis
      by (auto simp: visited_set_def)
  next
    case False
    with Cons.prems have "reachFor ns (q @ [n], store vis n True) = (q', vis')" by simp
    from Cons.IH [OF this] obtain new where new:
      "q' = (q @ [n]) @ new" "distinct new" "set new \<inter> visited_set (store vis n True) = {}"
      "visited_set vis' = visited_set (store vis n True) \<union> set new" "set new \<subseteq> set ns"
      "set ns \<subseteq> visited_set vis'" "marked_set vis' = marked_set (store vis n True) \<union> set new"
      by blast
    have "n \<notin> visited_set vis"
      using False by (simp add: visited_set_def)
    with new show ?thesis
      by (intro exI [of _ "n # new"]) (auto simp: visited_set_store marked_set_store [OF False])
  qed
qed

lemma unvisited_visited_set:
  "unvisited adj vis = mentioned adj - visited_set vis"
  by (auto simp: unvisited_def visited_set_def)

lemma reachFor_measure:
  assumes "set ns \<subseteq> mentioned adj" and "reachFor ns (q, vis) = (q', vis')"
  shows "card (unvisited adj vis') + length q' = card (unvisited adj vis) + length q"
proof -
  from reachFor_effect [OF assms(2)] obtain new where new:
    "q' = q @ new" "distinct new" "set new \<inter> visited_set vis = {}"
    "visited_set vis' = visited_set vis \<union> set new" "set new \<subseteq> set ns"
    by blast
  have sub: "set new \<subseteq> unvisited adj vis"
    using new(3,5) assms(1) by (auto simp: unvisited_visited_set)
  have "unvisited adj vis' = unvisited adj vis - set new"
    using new(4) by (auto simp: unvisited_visited_set)
  then have "card (unvisited adj vis') = card (unvisited adj vis) - card (set new)"
    using sub by (simp add: card_Diff_subset)
  moreover have "card (set new) \<le> card (unvisited adj vis)"
    using sub finite_unvisited by (intro card_mono)
  moreover have "card (set new) = length new"
    using new(2) by (simp add: distinct_card)
  ultimately show ?thesis
    using new(1) by simp
qed

function reachLoop :: "adjlist \<Rightarrow> string list \<Rightarrow> (string \<rightharpoonup> bool) \<Rightarrow> error + (string \<rightharpoonup> bool)" where
  "reachLoop adj [] vis = Inr vis"
| "reachLoop adj (current # queue) vis =
     (case adj_entry adj current of
        Inl err \<Rightarrow> Inl err
      | Inr ns \<Rightarrow>
          (case reachFor ns (queue, vis) of (queue1, vis1) \<Rightarrow> reachLoop adj queue1 vis1))"
  by pat_completeness auto
termination
proof (relation "measure (\<lambda>(adj, queue, vis). card (unvisited adj vis) + length queue)", goal_cases)
  case 1
  show ?case by simp
next
  case (2 adj current queue vis ns queue1 vis1)
  then have "reachFor ns (queue, vis) = (queue1, vis1)"
    by simp
  from reachFor_measure [OF adj_entry_mentioned this] 2(1)
  show ?case by simp
qed

text \<open>
  The Euclidean distance as the source computes it, over the reals (rounding and overflow
  of doubles are not modelled; they bear on which connected node the scan below picks,
  and on nothing else), and the scan
  \<^verbatim>\<open>connectedNodes.forEach\<close> for the closest connected node, which starts from
  \<^verbatim>\<open>connectedNodes[0]\<close> (\<^verbatim>\<open>undefined\<close> for an empty list) and \<^verbatim>\<open>Number.MAX_VALUE\<close>.
\<close>

definition distance :: "node \<Rightarrow> node \<Rightarrow> real" where
  "distance connectedNode disconnectedNode =
     (let dx = node_x connectedNode - node_x disconnectedNode;
          dy = node_y connectedNode - node_y disconnectedNode
      in sqrt (dx * dx + dy * dy))"

fun closestFor :: "node \<Rightarrow> node list \<Rightarrow> node option \<times> real \<Rightarrow> node option \<times> real" where
  "closestFor disconnectedNode [] best = best"
| "closestFor disconnectedNode (connectedNode # rest) (closestNode, minDistance) =
     (if distance connectedNode disconnectedNode < minDistance
      then closestFor disconnectedNode rest
             (Some connectedNode, distance connectedNode disconnectedNode)
      else closestFor disconnectedNode rest (closestNode, minDistance))"

text \<open>
  The body of \<^verbatim>\<open>disconnectedNodes.forEach\<close>: the recovery edge and its log line;
  \<^verbatim>\<open>closestNode.id\<close> throws when there is no connected node.
\<close>

definition reconnect :: "node list \<Rightarrow> node \<Rightarrow> error + edge \<times> event" where
  "reconnect connectedNodes disconnectedNode =
     (case fst (closestFor disconnectedNode connectedNodes
                  (case connectedNodes of [] \<Rightarrow> None | n # _ \<Rightarrow> Some n, MAX_VALUE)) of
        None \<Rightarrow> Inl TypeError
      | Some closestNode \<Rightarrow>
          Inr (\<lparr>source = node_id disconnectedNode, target = node_id closestNode,
                isBridge = None, isActive = True, isRecovery = Some True\<rparr>,
               Reconnecting disconnectedNode closestNode))"

fun reconnectAll :: "node list \<Rightarrow> node list \<Rightarrow> error + edge list \<times> event list" where
  "reconnectAll connectedNodes [] = Inr ([], [])"
| "reconnectAll connectedNodes (disconnectedNode # rest) =
     (case reconnect connectedNodes disconnectedNode of
        Inl err \<Rightarrow> Inl err
      | Inr (recoveryEdge, line) \<Rightarrow>
          (case reconnectAll connectedNodes rest of
             Inl err \<Rightarrow> Inl err
           | Inr (newRecoveryEdges, res) \<Rightarrow> Inr (recoveryEdge # newRecoveryEdges, line # res)))"

definition recoverNetwork :: "sim_state \<Rightarrow> error + sim_state" where
  "recoverNetwork st =
     (let g = graph st in
      case buildAdjList g of
        Inl err \<Rightarrow> Inl err
      | Inr adjList \<Rightarrow>
          (case selectSource g of
             Inl err \<Rightarrow> Inl err
           | Inr sourceNode \<Rightarrow>
               (case reachLoop adjList [sourceNode] (store Map.empty sourceNode True) of
                  Inl err \<Rightarrow> Inl err
                | Inr vis \<Rightarrow>
                    (let disconnectedNodes = filter (\<lambda>n. \<not> is_visited vis (node_id n)) (nodes g) in
                     if disconnectedNodes = []
                     then Inr (st\<lparr>recoveryEdges := [],
                                  algorithmResult := [StartingRecovery, AllConnected]\<rparr>)
                     else case reconnectAll (filter (\<lambda>n. is_visited vis (node_id n)) (nodes g))
                                 disconnectedNodes of
                            Inl err \<Rightarrow> Inl err
                          | Inr (newRecoveryEdges, res) \<Rightarrow>
                              Inr (st\<lparr>recoveryEdges := newRecoveryEdges,
                                      algorithmResult :=
                                        [StartingRecovery, FoundDisconnected disconnectedNodes]
                                          @ res\<rparr>)))))"

subsection \<open>Reachability\<close>

text \<open>
  \<open>b\<close> is reachable from \<open>a\<close> when a chain of active edges, each taken in either
  direction, leads from \<open>a\<close> to \<open>b\<close>. When no node id is a name of a member of
  \<^verbatim>\<open>Object.prototype\<close>, the traversal marks exactly the ids reachable from its start.
\<close>

definition links :: "graph \<Rightarrow> (string \<times> string) set" where
  "links g = {(a, b). linked g a b}"

definition reachable :: "graph \<Rightarrow> string \<Rightarrow> string \<Rightarrow> bool" where
  "reachable g a b \<longleftrightarrow> (a, b) \<in> (links g)\<^sup>*"

lemma reachLoop_correct:
  assumes "\<forall>a. nbrs adj a \<subseteq> keys adj"
    and "\<forall>k \<in> keys adj. \<not> inherited k"
    and "set q \<subseteq> marked_set vis"
    and "marked_set vis \<subseteq> keys adj"
    and "\<forall>v \<in> marked_set vis. (src, v) \<in> {(a, b). b \<in> nbrs adj a}\<^sup>*"
    and "\<forall>v \<in> marked_set vis. v \<in> set q \<or> nbrs adj v \<subseteq> marked_set vis"
  shows "\<exists>vis'. reachLoop adj q vis = Inr vis' \<and> marked_set vis \<subseteq> marked_set vis' \<and>
           (\<forall>v \<in> marked_set vis'. (src, v) \<in> {(a, b). b \<in> nbrs adj a}\<^sup>*) \<and>
           (\<forall>v \<in> marked_set vis'. nbrs adj v \<subseteq> marked_set vis')"
  using assms
proof (induction adj q vis rule: reachLoop.induct)
  case (1 adj vis)
  then show ?case by simp
next
  case (2 adj current queue vis)
  from "2.prems"(3,4) have key: "current \<in> keys adj" by auto
  from adj_entry_keys [OF key] obtain ns where
    ns: "adj_entry adj current = Inr ns" and nb: "nbrs adj current = set ns"
    by (auto simp: nbrs_def)
  obtain queue1 vis1 where run1: "reachFor ns (queue, vis) = (queue1, vis1)"
    by force
  from reachFor_effect [OF run1] obtain new where new:
    "queue1 = queue @ new" "marked_set vis1 = marked_set vis \<union> set new" "set new \<subseteq> set ns"
    "set ns \<subseteq> visited_set vis1"
    by blast
  have sub: "set ns \<subseteq> keys adj"
    using "2.prems"(1) nb by blast
  have marked: "set ns \<subseteq> marked_set vis1"
  proof
    fix v assume v: "v \<in> set ns"
    with sub "2.prems"(2) have "\<not> inherited v" by auto
    moreover from v new(4) have "is_visited vis1 v"
      by (auto simp: visited_set_def)
    ultimately show "v \<in> marked_set vis1"
      by (simp add: marked_set_def is_visited_plain)
  qed
  have cur: "(src, current) \<in> {(a, b). b \<in> nbrs adj a}\<^sup>*"
    using "2.prems"(3,5) by simp
  have p3: "set queue1 \<subseteq> marked_set vis1"
    using "2.prems"(3) new by auto
  have p4: "marked_set vis1 \<subseteq> keys adj"
    using "2.prems"(4) new sub by blast
  have p5: "\<forall>v \<in> marked_set vis1. (src, v) \<in> {(a, b). b \<in> nbrs adj a}\<^sup>*"
  proof
    fix v assume "v \<in> marked_set vis1"
    then consider "v \<in> marked_set vis" | "v \<in> set ns"
      using new by auto
    then show "(src, v) \<in> {(a, b). b \<in> nbrs adj a}\<^sup>*"
    proof cases
      case 1
      with "2.prems"(5) show ?thesis by simp
    next
      case 2
      with nb have "(current, v) \<in> {(a, b). b \<in> nbrs adj a}" by simp
      with cur show ?thesis by (rule rtrancl_into_rtrancl)
    qed
  qed
  have p6: "\<forall>v \<in> marked_set vis1. v \<in> set queue1 \<or> nbrs adj v \<subseteq> marked_set vis1"
  proof
    fix v assume v: "v \<in> marked_set vis1"
    show "v \<in> set queue1 \<or> nbrs adj v \<subseteq> marked_set vis1"
    proof (cases "v \<in> marked_set vis")
      case False
      with v new show ?thesis by auto
    next
      case True
      with "2.prems"(6) have "v = current \<or> v \<in> set queue \<or> nbrs adj v \<subseteq> marked_set vis"
        by auto
      with new nb marked show ?thesis by auto
    qed
  qed
  from "2.IH" [OF ns run1 [symmetric] "2.prems"(1,2) p3 p4 p5 p6] obtain vis' where
    "reachLoop adj queue1 vis1 = Inr vis'" "marked_set vis1 \<subseteq> marked_set vis'"
    "\<forall>v \<in> marked_set vis'. (src, v) \<in> {(a, b). b \<in> nbrs adj a}\<^sup>*"
    "\<forall>v \<in> marked_set vis'. nbrs adj v \<subseteq> marked_set vis'"
    by blast
  with ns run1 new show ?case by auto
qed

lemma reachLoop_from_source:
  assumes adj: "buildAdjList g = Inr adj" and src: "src \<in> node_ids g"
    and plain: "\<forall>k \<in> node_ids g. \<not> inherited k"
  shows "\<exists>vis. reachLoop adj [src] (store Map.empty src True) = Inr vis \<and>
           (\<forall>v \<in> node_ids g. is_visited vis v \<longleftrightarrow> reachable g src v)"
proof -
  have E: "{(a, b). b \<in> nbrs adj a} = links g"
    using buildAdjList_Inr(2) [OF adj] by (simp add: links_def)
  have k: "keys adj = node_ids g"
    by (rule buildAdjList_Inr(1) [OF adj])
  have m0: "marked_set (store Map.empty src True) = {src}"
    using src plain by (auto simp: marked_set_def store_plain)
  from reachLoop_correct [OF closed_adjList [OF adj], of "[src]" "store Map.empty src True" src]
  obtain vis where vis: "reachLoop adj [src] (store Map.empty src True) = Inr vis"
    "src \<in> marked_set vis"
    "\<forall>v \<in> marked_set vis. (src, v) \<in> (links g)\<^sup>*"
    "\<forall>v \<in> marked_set vis. nbrs adj v \<subseteq> marked_set vis"
    using src plain unfolding m0 E k by auto
  have "v \<in> marked_set vis" if "(src, v) \<in> (links g)\<^sup>*" for v
    using that
  proof (induction rule: rtrancl_induct)
    case base
    show ?case by (rule vis(2))
  next
    case (step y z)
    from step(2) have "z \<in> nbrs adj y"
      using E by auto
    with step(3) vis(4) show ?case by auto
  qed
  with vis(1,3) plain show ?thesis
    by (auto simp: reachable_def marked_set_def is_visited_plain)
qed

lemma closestFor_member:
  "fst (closestFor d cs (best, m)) = best \<or> fst (closestFor d cs (best, m)) \<in> Some ` set cs"
proof (induction cs arbitrary: best m)
  case Nil
  show ?case by simp
next
  case (Cons c cs)
  show ?case
  proof (cases "distance c d < m")
    case True
    with Cons [of "Some c" "distance c d"] show ?thesis by auto
  next
    case False
    with Cons [of best m] show ?thesis by auto
  qed
qed

lemma reconnect_Inr:
  assumes "cs \<noteq> []"
  shows "\<exists>c \<in> set cs. \<exists>line. reconnect cs d =
           Inr (\<lparr>source = node_id d, target = node_id c, isBridge = None, isActive = True,
                 isRecovery = Some True\<rparr>, line)"
proof -
  obtain c0 rest where cs: "cs = c0 # rest"
    using assms by (cases cs) auto
  from closestFor_member [of d cs "Some c0" MAX_VALUE]
  obtain c where "c \<in> set cs" "fst (closestFor d cs (Some c0, MAX_VALUE)) = Some c"
    using cs by auto
  then show ?thesis
    by (auto simp: reconnect_def cs)
qed

lemma reconnectAll_Inr:
  assumes "cs \<noteq> []"
  shows "\<exists>rs res. reconnectAll cs ds = Inr (rs, res) \<and>
           map source rs = map node_id ds \<and>
           (\<forall>e \<in> set rs. isActive e \<and> isRecovery e = Some True \<and> target e \<in> node_id ` set cs)"
proof (induction ds)
  case Nil
  show ?case by simp
next
  case (Cons d ds)
  from reconnect_Inr [OF assms, of d] obtain c line where
    "c \<in> set cs" "reconnect cs d =
           Inr (\<lparr>source = node_id d, target = node_id c, isBridge = None, isActive = True,
                 isRecovery = Some True\<rparr>, line)"
    by blast
  with Cons show ?case by auto
qed

lemma selectSource_Inr:
  assumes "nodes g \<noteq> []"
  shows "\<exists>h. selectSource g = Inr h \<and> h \<in> node_ids g"
proof -
  obtain n0 rest where ns: "nodes g = n0 # rest"
    using assms by (cases "nodes g") auto
  show ?thesis
  proof (cases "find (\<lambda>n. kind n = Hub) (nodes g)")
    case None
    with ns show ?thesis by (simp add: selectSource_def node_ids_def)
  next
    case (Some hub)
    then have "hub \<in> set (nodes g)"
      by (auto simp: find_Some_iff)
    with Some ns show ?thesis
      by (auto simp: selectSource_def node_ids_def)
  qed
qed


lemma recoverNetwork_eq:
  assumes "buildAdjList (graph st) = Inr adj" and "selectSource (graph st) = Inr hub"
    and "reachLoop adj [hub] (store Map.empty hub True) = Inr vis"
    and "\<forall>v \<in> node_ids (graph st). is_visited vis v \<longleftrightarrow> reachable (graph st) hub v"
  shows "recoverNetwork st =
     (let disconnectedNodes = filter (\<lambda>n. \<not> reachable (graph st) hub (node_id n)) (nodes (graph st)) in
      if disconnectedNodes = []
      then Inr (st\<lparr>recoveryEdges := [], algorithmResult := [StartingRecovery, AllConnected]\<rparr>)
      else case reconnectAll (filter (\<lambda>n. reachable (graph st) hub (node_id n)) (nodes (graph st)))
                  disconnectedNodes of
             Inl err \<Rightarrow> Inl err
           | Inr (newRecoveryEdges, res) \<Rightarrow>
               Inr (st\<lparr>recoveryEdges := newRecoveryEdges,
                       algorithmResult :=
                         [StartingRecovery, FoundDisconnected disconnectedNodes] @ res\<rparr>))"
proof -
  have "filter (\<lambda>n. \<not> is_visited vis (node_id n)) (nodes (graph st))
          = filter (\<lambda>n. \<not> reachable (graph st) hub (node_id n)) (nodes (graph st))"
    and "filter (\<lambda>n. is_visited vis (node_id n)) (nodes (graph st))
          = filter (\<lambda>n. reachable (graph st) hub (node_id n)) (nodes (graph st))"
    using assms(4) by (auto simp: node_ids_def intro!: filter_cong)
  with assms(1-3) show ?thesis
    by (simp add: recoverNetwork_def Let_def)
qed

lemma reachable_more_edges:
  "reachable g a b \<Longrightarrow> reachable (g\<lparr>edges := edges g @ rs\<rparr>) a b"
proof -
  have "links g \<subseteq> links (g\<lparr>edges := edges g @ rs\<rparr>)"
    by (auto simp: links_def linked_def)
  then show "reachable g a b \<Longrightarrow> reachable (g\<lparr>edges := edges g @ rs\<rparr>) a b"
    unfolding reachable_def using rtrancl_mono by blast
qed

subsection \<open>Example graphs\<close>

text \<open>
  Five nodes on a line, D(-5) H(0) A(10) B(20) C(35), with the links H-A and A-B; C and
  D are isolated. The first node of the list is not the hub.
\<close>

definition scenario_graph :: graph where
  "scenario_graph =
     \<lparr>nodes = [site ''A'' City 10 0, site ''H'' Hub 0 0, site ''B'' City 20 0,
               site ''C'' Barangay 35 0, site ''D'' Barangay (- 5) 0],
      edges = [link ''H'' ''A'' True, link ''A'' ''B'' True]\<rparr>"

text \<open>A hub and a city named \<^verbatim>\<open>constructor\<close>, without a link.\<close>

definition shadow_graph :: graph where
  "shadow_graph =
     \<lparr>nodes = [site ''H'' Hub 0 0, site ''constructor'' City 100 0], edges = []\<rparr>"

section \<open>Properties of the recovery planner\<close>

text \<open>
  C7, as stated, fails on the empty graph: there is no \<^verbatim>\<open>EmptyGraph\<close> error; the read of
  \<^verbatim>\<open>graph.nodes[0].id\<close> throws a \<^verbatim>\<open>TypeError\<close>.
\<close>

theorem recoverNetwork_empty_counterexample:
  "recoverNetwork (initial_state \<lparr>nodes = [], edges = []\<rparr>) = Inl TypeError"
  by (simp add: recoverNetwork_def buildAdjList_def emptyAdjList_def selectSource_def
        initial_state_def)

text \<open>
  C7 (amended): for a graph with at least one node the planner's start is the id of the
  first node whose kind is hub, if there is one and its id is not the empty string, and
  otherwise the id of the first node of the node list.
\<close>

theorem selectSource_choice:
  assumes "nodes g \<noteq> []"
  shows "\<exists>h. selectSource g = Inr h \<and>
     (\<forall>i < length (nodes g).
        kind (nodes g ! i) = Hub \<and> (\<forall>j < i. kind (nodes g ! j) \<noteq> Hub) \<longrightarrow>
        h = (if node_id (nodes g ! i) \<noteq> [] then node_id (nodes g ! i)
             else node_id (nodes g ! 0))) \<and>
     ((\<forall>n \<in> set (nodes g). kind n \<noteq> Hub) \<longrightarrow> h = node_id (nodes g ! 0))"
proof -
  obtain n0 rest where ns: "nodes g = n0 # rest"
    using assms by (cases "nodes g") auto
  show ?thesis
  proof (cases "find (\<lambda>n. kind n = Hub) (nodes g)")
    case None
    then have no: "\<forall>n \<in> set (nodes g). kind n \<noteq> Hub"
      by (auto simp: find_None_iff)
    then have "\<forall>i < length (nodes g). kind (nodes g ! i) \<noteq> Hub"
      by simp
    moreover have "selectSource g = Inr (node_id (nodes g ! 0))"
      using None ns by (simp add: selectSource_def)
    ultimately show ?thesis
      by (intro exI [of _ "node_id (nodes g ! 0)"]) simp
  next
    case (Some hub)
    then obtain i0 where i0: "i0 < length (nodes g)" "kind (nodes g ! i0) = Hub"
      "hub = nodes g ! i0" "\<forall>j < i0. kind (nodes g ! j) \<noteq> Hub"
      by (auto simp: find_Some_iff)
    have first: "i = i0"
      if "i < length (nodes g)" "kind (nodes g ! i) = Hub" "\<forall>j < i. kind (nodes g ! j) \<noteq> Hub" for i
      using that i0 by (meson linorder_neqE_nat)
    have "nodes g ! i0 \<in> set (nodes g)"
      using i0(1) by simp
    with i0(2) have some: "\<not> (\<forall>n \<in> set (nodes g). kind n \<noteq> Hub)"
      by blast
    let ?h = "if node_id hub \<noteq> [] then node_id hub else node_id n0"
    have "selectSource g = Inr ?h"
      using Some ns by (simp add: selectSource_def)
    with first some i0(3) ns show ?thesis
      by (intro exI [of _ ?h]) auto
  qed
qed

theorem selectSource_choice_witness:
  "selectSource scenario_graph = Inr ''H'' \<and> selectSource parallel_graph = Inr ''A''"
proof -
  have "nodes scenario_graph \<noteq> []"
    by (simp add: scenario_graph_def)
  from selectSource_choice [OF this] obtain h where h: "selectSource scenario_graph = Inr h"
    and first: "\<And>i. i < length (nodes scenario_graph) \<Longrightarrow>
        kind (nodes scenario_graph ! i) = Hub \<and> (\<forall>j < i. kind (nodes scenario_graph ! j) \<noteq> Hub) \<Longrightarrow>
        h = (if node_id (nodes scenario_graph ! i) \<noteq> [] then node_id (nodes scenario_graph ! i)
             else node_id (nodes scenario_graph ! 0))"
    by blast
  from first [of 1] have "h = ''H''"
    by (simp add: scenario_graph_def site_def)
  with h show ?thesis
    by (simp add: selectSource_def parallel_graph_def site_def)
qed

text \<open>
  When no node id is a name of a member of \<^verbatim>\<open>Object.prototype\<close>: for every graph with at
  least one node (satisfying the data-model invariant), the planner returns; with its
  recovery edges added to the edges of the graph, every node is reachable from the hub;
  there is one recovery edge per node unreachable in the original graph, in the order of
  the node list, from that node to a node reachable in the original graph.
\<close>

lemma recoverNetwork_reconnects:
  assumes wf: "wf_graph (graph st)" and ne: "nodes (graph st) \<noteq> []"
    and plain: "\<forall>k \<in> node_ids (graph st). \<not> inherited k"
  shows "\<exists>hub st'. selectSource (graph st) = Inr hub \<and> recoverNetwork st = Inr st' \<and>
     (\<forall>n \<in> set (nodes (graph st)).
        reachable ((graph st)\<lparr>edges := edges (graph st) @ recoveryEdges st'\<rparr>) hub (node_id n)) \<and>
     map source (recoveryEdges st') =
       map node_id (filter (\<lambda>n. \<not> reachable (graph st) hub (node_id n)) (nodes (graph st))) \<and>
     (\<forall>e \<in> set (recoveryEdges st').
        isActive e \<and> isRecovery e = Some True \<and>
        source e \<in> node_ids (graph st) \<and> \<not> reachable (graph st) hub (source e) \<and>
        target e \<in> node_ids (graph st) \<and> reachable (graph st) hub (target e))"
proof -
  let ?g = "graph st"
  from buildAdjList_succeeds [OF wf] obtain adj where adj: "buildAdjList ?g = Inr adj" ..
  from selectSource_Inr [OF ne] obtain hub where hub: "selectSource ?g = Inr hub" "hub \<in> node_ids ?g"
    by blast
  from reachLoop_from_source [OF adj hub(2) plain] obtain vis where
    vis: "reachLoop adj [hub] (store Map.empty hub True) = Inr vis"
      "\<forall>v \<in> node_ids ?g. is_visited vis v \<longleftrightarrow> reachable ?g hub v"
    by blast
  let ?disc = "filter (\<lambda>n. \<not> reachable ?g hub (node_id n)) (nodes ?g)"
  let ?conn = "filter (\<lambda>n. reachable ?g hub (node_id n)) (nodes ?g)"
  note eq = recoverNetwork_eq [OF adj hub(1) vis]
  have "reachable ?g hub hub"
    by (simp add: reachable_def)
  with hub(2) have conn: "?conn \<noteq> []"
    by (auto simp: node_ids_def filter_empty_conv)
  from reconnectAll_Inr [OF conn, of ?disc] obtain rs res where
    rs: "reconnectAll ?conn ?disc = Inr (rs, res)" "map source rs = map node_id ?disc"
    "\<forall>e \<in> set rs. isActive e \<and> isRecovery e = Some True \<and> target e \<in> node_id ` set ?conn"
    by blast
  define st' where "st' = (if ?disc = []
      then st\<lparr>recoveryEdges := [], algorithmResult := [StartingRecovery, AllConnected]\<rparr>
      else st\<lparr>recoveryEdges := rs,
              algorithmResult := [StartingRecovery, FoundDisconnected ?disc] @ res\<rparr>)"
  have run: "recoverNetwork st = Inr st'"
    unfolding eq st'_def using rs(1) by (simp add: Let_def)
  have rec: "recoveryEdges st' = rs"
    using rs(2) by (auto simp: st'_def)
  have src: "source e \<in> node_ids ?g \<and> \<not> reachable ?g hub (source e)" if "e \<in> set rs" for e
  proof -
    from that have "source e \<in> set (map source rs)" by simp
    then show ?thesis
      unfolding rs(2) by (auto simp: node_ids_def)
  qed
  have tgt: "target e \<in> node_ids ?g \<and> reachable ?g hub (target e)" if "e \<in> set rs" for e
    using rs(3) that by (auto simp: node_ids_def)
  have all: "reachable (?g\<lparr>edges := edges ?g @ rs\<rparr>) hub (node_id n)" if n: "n \<in> set (nodes ?g)" for n
  proof (cases "reachable ?g hub (node_id n)")
    case True
    then show ?thesis by (rule reachable_more_edges)
  next
    case False
    with n have "node_id n \<in> set (map node_id ?disc)" by simp
    then have "node_id n \<in> set (map source rs)"
      by (simp only: rs(2))
    then obtain e where e: "e \<in> set rs" "source e = node_id n" by auto
    from tgt [OF e(1)] have "reachable (?g\<lparr>edges := edges ?g @ rs\<rparr>) hub (target e)"
      by (intro reachable_more_edges) simp
    moreover have "(target e, node_id n) \<in> links (?g\<lparr>edges := edges ?g @ rs\<rparr>)"
      using e rs(3) by (auto simp: links_def linked_def edge_matches_def)
    ultimately show ?thesis
      unfolding reachable_def by (rule rtrancl_into_rtrancl)
  qed
  show ?thesis
    using hub(1) run rec rs(2,3) src tgt all
    by (intro exI [of _ hub] exI [of _ st']) auto
qed

text \<open>
  C4 does not hold of the code for every graph: a node named like a member of
  \<^verbatim>\<open>Object.prototype\<close> has a truthy \<^verbatim>\<open>visited\<close> entry although the traversal never reached
  it, so the planner takes it for connected. For a hub and an unlinked city named
  \<^verbatim>\<open>constructor\<close> the planner reports that all nodes are connected and proposes no
  recovery edge, while the city is not reachable from the hub.
\<close>

theorem recoverNetwork_inherited_id:
  "selectSource shadow_graph = Inr ''H'' \<and>
   recoverNetwork (initial_state shadow_graph) =
     Inr ((initial_state shadow_graph)
            \<lparr>recoveryEdges := [], algorithmResult := [StartingRecovery, AllConnected]\<rparr>) \<and>
   \<not> reachable (shadow_graph\<lparr>edges := edges shadow_graph @ []\<rparr>) ''H'' ''constructor''"
  by (simp add: recoverNetwork_def Let_def buildAdjList_def emptyAdjList_def adj_entry_def
        selectSource_def is_visited_def inherited_def object_prototype_names_def store_def
        reachable_def links_def linked_def shadow_graph_def initial_state_def site_def)

text \<open>
  With a third node D next to it, the node named \<^verbatim>\<open>constructor\<close> is also taken for a
  connected node that D can be linked to: the one recovery edge joins two nodes that are
  both unreachable from the hub. (The distances compared are 101 and 1, which doubles
  represent exactly.)
\<close>

lemma recoverNetwork_inherited_target:
  "recoverNetwork (initial_state
       \<lparr>nodes = [site ''H'' Hub 0 0, site ''constructor'' City 100 0, site ''D'' City 101 0],
        edges = []\<rparr>)
    = Inr ((initial_state
       \<lparr>nodes = [site ''H'' Hub 0 0, site ''constructor'' City 100 0, site ''D'' City 101 0],
        edges = []\<rparr>)
       \<lparr>recoveryEdges :=
          [\<lparr>source = ''D'', target = ''constructor'', isBridge = None, isActive = True,
            isRecovery = Some True\<rparr>],
        algorithmResult :=
          [StartingRecovery,
           FoundDisconnected [site ''D'' City 101 0],
           Reconnecting (site ''D'' City 101 0) (site ''constructor'' City 100 0)]\<rparr>)"
  by (simp add: recoverNetwork_def Let_def buildAdjList_def emptyAdjList_def adj_entry_def
        selectSource_def is_visited_def inherited_def object_prototype_names_def store_def
        reconnect_def distance_def MAX_VALUE_def initial_state_def site_def)

end
